theory Spec2Isabelle
  imports Main "HOL-Library.Word" "HOL-Library.Multiset" "HOL-Library.Sublist"
begin

section \<open>n-ary Huffman labels: the data model of huffman.go\<close>

text \<open>
  The Go type \<open>int\<close> is a 64-bit two's complement integer on the platforms the
  repository is built for.  Frequencies are arbitrary caller-supplied values of that
  type and are added up by \<open>combine\<close>, so the field \<open>Freq\<close> is a \<open>64 word\<close>: addition
  wraps around and \<open>Less\<close> compares the signed readings.  The other integers of the
  program (indices into the node pool, sibling positions, hop counts, \<open>base\<close>) are
  bounded by the size of the pool that has been allocated and are modelled as
  unbounded \<open>int\<close>/\<open>nat\<close>.
\<close>

type_synonym go_int = "64 word"

record node =
  ParentIndex :: int
  SiblingIndex :: int
  TotalHops :: int
  Freq :: go_int

text \<open>The zero value of \<open>node\<close>, as \<open>make([]node, numNodes)\<close> fills the pool with it.\<close>

definition zero_node :: node where
  "zero_node = \<lparr>ParentIndex = 0, SiblingIndex = 0, TotalHops = 0, Freq = 0\<rparr>"

text \<open>The leaf written by the first loop of \<open>Label\<close> for the frequency \<open>f\<close>.\<close>

definition leaf_node :: "go_int \<Rightarrow> node" where
  "leaf_node f = \<lparr>ParentIndex = - 1, SiblingIndex = - 1, TotalHops = 0, Freq = f\<rparr>"

text \<open>
  The two ways the program can stop without a result: the explicit \<open>panic\<close> for a
  too small alphabet, and the run-time panics of Go for an index outside a slice
  and for a negative capacity given to \<open>make\<close>.
\<close>

datatype error = InvalidArgument | IndexOutOfRange | MakeSliceCap

text \<open>
  The mutable state of one call: the pool \<open>nodes\<close>, the heap \<open>nodeHeap\<close> and the
  counter \<open>nextNodeIdx\<close>.  The heap is a slice of pointers \<open>&nodes[i]\<close>; a pointer
  into the pool is modelled by the index it points to, so that a write through a
  popped pointer is an update of the pool at that index.
\<close>

record state =
  nodes :: "node list"
  nodeHeap :: "nat list"
  nextNodeIdx :: nat

section \<open>The heap: \<open>nodeHeap\<close> under \<open>container/heap\<close>\<close>

text \<open>\<open>nodeHeap.Less\<close>: only the frequencies are compared.\<close>

definition Less :: "node list \<Rightarrow> nat list \<Rightarrow> nat \<Rightarrow> nat \<Rightarrow> bool" where
  "Less ns h i j \<longleftrightarrow> sint (Freq (ns ! (h ! i))) < sint (Freq (ns ! (h ! j)))"

text \<open>\<open>nodeHeap.Swap\<close>.\<close>

definition Swap :: "nat list \<Rightarrow> nat \<Rightarrow> nat \<Rightarrow> nat list" where
  "Swap h i j = h[i := h ! j, j := h ! i]"

text \<open>
  The sift procedures of Go's standard package \<open>container/heap\<close>, which \<open>Label\<close>
  calls through \<open>heap.Init\<close>, \<open>heap.Push\<close> and \<open>heap.Pop\<close>.  In \<open>up\<close> the parent of
  position \<open>j\<close> is \<open>(j - 1) / 2\<close>, which Go's truncating division makes \<open>0\<close> for
  \<open>j = 0\<close>, as the subtraction on \<open>nat\<close> does.  In \<open>down\<close> the test \<open>j1 < 0\<close>
  guards against the overflow of \<open>2*i + 1\<close>; it never holds for a position of a
  slice and has no counterpart on \<open>nat\<close>.  The boolean that \<open>down\<close> returns is
  not used by \<open>Init\<close> and \<open>Pop\<close>.
\<close>

function up :: "node list \<Rightarrow> nat list \<Rightarrow> nat \<Rightarrow> nat list" where
  "up ns h j =
     (let i = (j - 1) div 2
      in if i = j \<or> \<not> Less ns h j i then h else up ns (Swap h i j) i)"
  by pat_completeness auto
termination
  by (relation "measure (\<lambda>(ns, h, j). j)") auto

declare up.simps [simp del]

function down :: "node list \<Rightarrow> nat list \<Rightarrow> nat \<Rightarrow> nat \<Rightarrow> nat list" where
  "down ns h i n =
     (let j1 = 2 * i + 1
      in if n \<le> j1 then h
         else let j2 = j1 + 1;
                  j = (if j2 < n \<and> Less ns h j2 j1 then j2 else j1)
              in if \<not> Less ns h j i then h else down ns (Swap h i j) j n)"
  by pat_completeness auto
termination
  by (relation "measure (\<lambda>(ns, h, i, n). n - i)") (auto simp: Let_def)

declare down.simps [simp del]

text \<open>
  \<open>heap.Init\<close> runs \<open>down(h, i, n)\<close> for \<open>i = n/2 - 1\<close> down to \<open>0\<close>; the argument
  of \<open>init_loop\<close> is \<open>i + 1\<close>.
\<close>

fun init_loop :: "node list \<Rightarrow> nat list \<Rightarrow> nat \<Rightarrow> nat \<Rightarrow> nat list" where
  "init_loop ns h 0 n = h"
| "init_loop ns h (Suc i) n = init_loop ns (down ns h i n) i n"

definition heap_Init :: "node list \<Rightarrow> nat list \<Rightarrow> nat list" where
  "heap_Init ns h = (let n = length h in init_loop ns h (n div 2) n)"

text \<open>\<open>heap.Push\<close>: \<open>nodeHeap.Push\<close> appends, then the new last element is sifted up.\<close>

definition heap_Push :: "node list \<Rightarrow> nat list \<Rightarrow> nat \<Rightarrow> nat list" where
  "heap_Push ns h x = (let h1 = h @ [x] in up ns h1 (length h1 - 1))"

text \<open>
  \<open>heap.Pop\<close>: the root is swapped with the last element, the new root is sifted
  down in the first \<open>n\<close> positions, and \<open>nodeHeap.Pop\<close> removes and returns the last
  element.  Its only call is guarded by \<open>len(nodeHeap) > 0\<close>.
\<close>

definition heap_Pop :: "node list \<Rightarrow> nat list \<Rightarrow> nat \<times> nat list" where
  "heap_Pop ns h =
     (let n = length h - 1;
          h1 = Swap h 0 n;
          h2 = down ns h1 0 n
      in (h2 ! n, take n h2))"

section \<open>\<open>Label\<close>\<close>

text \<open>
  The loop of the closure \<open>combine\<close>.  Its state is the program state together with
  the loop counter \<open>i\<close> and the two accumulators; the counter is returned as well,
  it is the number of children that were popped.
\<close>

function combine_loop ::
  "int \<Rightarrow> nat \<Rightarrow> state \<Rightarrow> nat \<Rightarrow> go_int \<Rightarrow> int \<Rightarrow> state \<times> nat \<times> go_int \<times> int" where
  "combine_loop numChildren parentIdx st i freq totalHops =
     (if int i < numChildren \<and> 0 < length (nodeHeap st) then
        let (child, h') = heap_Pop (nodes st) (nodeHeap st);
            c = nodes st ! child;
            ns' = (nodes st)[child := c\<lparr>ParentIndex := int parentIdx, SiblingIndex := int i\<rparr>]
        in combine_loop numChildren parentIdx (st\<lparr>nodes := ns', nodeHeap := h'\<rparr>) (i + 1)
             (freq + Freq c) (totalHops + TotalHops c)
      else (st, i, freq, totalHops))"
  by pat_completeness auto
termination
  by (relation "measure (\<lambda>(k, p, st, i, f, t). nat (k - int i))") auto

declare combine_loop.simps [simp del]

text \<open>
  \<open>combine\<close>: the write \<open>nodes[parentIdx] = ...\<close> panics when the pool is used up.
\<close>

definition combine :: "int \<Rightarrow> state \<Rightarrow> error + state" where
  "combine numChildren st =
     (let parentIdx = nextNodeIdx st;
          (st1, i, freq, totalHops) =
             combine_loop numChildren parentIdx (st\<lparr>nextNodeIdx := parentIdx + 1\<rparr>) 0 0 0
      in if parentIdx < length (nodes st1) then
           let ns' = (nodes st1)[parentIdx :=
                        \<lparr>ParentIndex = - 1, SiblingIndex = - 1,
                         TotalHops = totalHops + numChildren, Freq = freq\<rparr>]
           in Inr (st1\<lparr>nodes := ns', nodeHeap := heap_Push ns' (nodeHeap st1) parentIdx\<rparr>)
         else Inl IndexOutOfRange)"

text \<open>The number of children the call \<open>combine numChildren\<close> pops in the state \<open>st\<close>.\<close>

definition popped :: "int \<Rightarrow> state \<Rightarrow> nat" where
  "popped numChildren st =
     fst (snd (combine_loop numChildren (nextNodeIdx st)
                 (st\<lparr>nextNodeIdx := nextNodeIdx st + 1\<rparr>) 0 0 0))"

text \<open>
  The main loop \<open>for len(nodeHeap) > 1 { combine(base) }\<close>.  Every round takes a
  fresh node from the pool or panics, which is why the loop ends for every \<open>base\<close>;
  the two facts about \<open>combine\<close> below are what its termination proof needs.
\<close>

lemma combine_loop_fields:
  "combine_loop k p st i f t = (st', r) \<Longrightarrow>
     nextNodeIdx st' = nextNodeIdx st \<and> length (nodes st') = length (nodes st)"
  by (induction k p st i f t rule: combine_loop.induct)
     (subst (asm) (2) combine_loop.simps, auto split: if_splits prod.splits simp: Let_def)

lemma combine_Inr_fields:
  assumes "combine k st = Inr st'"
  shows "nextNodeIdx st' = Suc (nextNodeIdx st) \<and> length (nodes st') = length (nodes st)
    \<and> nextNodeIdx st < length (nodes st)"
proof -
  obtain st1 i f t where cl:
    "combine_loop k (nextNodeIdx st) (st\<lparr>nextNodeIdx := nextNodeIdx st + 1\<rparr>) 0 0 0 = (st1, i, f, t)"
    using prod_cases4 by blast
  from combine_loop_fields [OF cl]
  have 1: "nextNodeIdx st1 = Suc (nextNodeIdx st)" and 2: "length (nodes st1) = length (nodes st)"
    by simp_all
  from assms have 3: "nextNodeIdx st < length (nodes st1)"
    unfolding combine_def Let_def cl by (simp split: if_splits)
  with assms have "st' = st1\<lparr>nodes := (nodes st1)[nextNodeIdx st :=
                        \<lparr>ParentIndex = - 1, SiblingIndex = - 1,
                         TotalHops = t + k, Freq = f\<rparr>], nodeHeap := heap_Push ((nodes st1)[nextNodeIdx st :=
                        \<lparr>ParentIndex = - 1, SiblingIndex = - 1,
                         TotalHops = t + k, Freq = f\<rparr>]) (nodeHeap st1) (nextNodeIdx st)\<rparr>"
    unfolding combine_def Let_def cl by simp
  with 1 2 3 show ?thesis by simp
qed

function main_loop :: "int \<Rightarrow> state \<Rightarrow> error + state" where
  "main_loop base st =
     (if 1 < length (nodeHeap st) then
        (case combine base st of Inl e \<Rightarrow> Inl e | Inr st' \<Rightarrow> main_loop base st')
      else Inr st)"
  by pat_completeness auto
termination
proof (relation "measure (\<lambda>(b, st). length (nodes st) - nextNodeIdx st)")
  show "wf (measure (\<lambda>(b, st). length (nodes st) - nextNodeIdx st))"
    by simp
next
  fix base st st'
  assume "combine base st = Inr st'"
  from combine_Inr_fields [OF this]
  show "((base, st'), (base, st)) \<in> measure (\<lambda>(b, st). length (nodes st) - nextNodeIdx st)"
    by (simp add: diff_less_mono2)
qed

declare main_loop.simps [simp del]


text \<open>
  Go's \<open>/\<close> and \<open>%\<close> on \<open>int\<close> truncate towards zero, where \<open>div\<close> and \<open>mod\<close> of HOL
  round down.
\<close>

definition go_quot :: "int \<Rightarrow> int \<Rightarrow> int" where
  "go_quot a b = sgn a * sgn b * (\<bar>a\<bar> div \<bar>b\<bar>)"

definition go_rem :: "int \<Rightarrow> int \<Rightarrow> int" where
  "go_rem a b = a - b * go_quot a b"

text \<open>
  The walk from a leaf to the root, \<open>for c := n; c.ParentIndex != -1; c =
  nodes[c.ParentIndex]\<close>, appending to \<open>labelData\<close>.  Nothing in the loop itself
  bounds the number of rounds, so the function is partial: \<open>None\<close> is a walk that
  does not end.  The read \<open>nodes[c.ParentIndex]\<close> panics outside the pool.
\<close>

partial_function (option) walk :: "node list \<Rightarrow> node \<Rightarrow> int list \<Rightarrow> (error + int list) option" where
  "walk ns c labelData =
     (if ParentIndex c = - 1 then Some (Inr labelData)
      else if ParentIndex c < 0 \<or> int (length ns) \<le> ParentIndex c then Some (Inl IndexOutOfRange)
      else walk ns (ns ! nat (ParentIndex c)) (labelData @ [SiblingIndex c]))"

declare walk.simps [code]

text \<open>
  The loop over the leaves \<open>nodes[:len(freqs)]\<close>.  The label of a leaf is the part of
  \<open>labelData\<close> its walk has appended, reversed in place; later rounds append behind
  it and leave it as it is.
\<close>

fun label_loop :: "node list \<Rightarrow> node list \<Rightarrow> int list \<Rightarrow> (error + int list list) option" where
  "label_loop ns [] labelData = Some (Inr [])"
| "label_loop ns (n # rest) labelData =
     (case walk ns n labelData of
        None \<Rightarrow> None
      | Some (Inl e) \<Rightarrow> Some (Inl e)
      | Some (Inr labelData') \<Rightarrow>
          let start = length labelData;
              label = rev (drop start labelData');
              labelData'' = take start labelData' @ label
          in (case label_loop ns rest labelData'' of
                None \<Rightarrow> None
              | Some (Inl e) \<Rightarrow> Some (Inl e)
              | Some (Inr labels) \<Rightarrow> Some (Inr (label # labels))))"

text \<open>
  The tree construction of \<open>Label\<close> for at least two frequencies: \<open>init_state\<close> is
  the pool of \<open>numNodes\<close> nodes with the heap of the leaves, \<open>build\<close> runs the first
  combination with \<open>initial\<close> children and the main loop.
\<close>

definition initial_count :: "int \<Rightarrow> nat \<Rightarrow> int" where
  "initial_count base len = 2 + go_rem (int len - 2) (base - 1)"

definition init_state :: "int \<Rightarrow> go_int list \<Rightarrow> state" where
  "init_state base freqs =
     (let numIters = go_quot (int (length freqs) - 1) (base - 1) + 1;
          numNodes = int (length freqs) + numIters;
          ns = map leaf_node freqs @ replicate (nat numNodes - length freqs) zero_node;
          h = heap_Init ns [0..<length freqs]
      in \<lparr>nodes = ns, nodeHeap = h, nextNodeIdx = length freqs\<rparr>)"

definition build :: "int \<Rightarrow> go_int list \<Rightarrow> error + state" where
  "build base freqs =
     (let st = init_state base freqs;
          initial = initial_count base (length (nodeHeap st))
      in case (if 0 < initial then combine initial st else Inr st) of
           Inl e \<Rightarrow> Inl e
         | Inr st1 \<Rightarrow> main_loop base st1)"

text \<open>
  \<open>Label\<close>.  The result is \<open>None\<close> when a walk does not end, \<open>Some (Inl e)\<close> for a
  panic and \<open>Some (Inr labels)\<close> for the labels returned.
\<close>

definition Label :: "int \<Rightarrow> go_int list \<Rightarrow> (error + int list list) option" where
  "Label base freqs =
     (if base < 2 then Some (Inl InvalidArgument)
      else case freqs of
             [] \<Rightarrow> Some (Inr [])
           | [f] \<Rightarrow> Some (Inr [[0]])
           | _ \<Rightarrow>
             (case build base freqs of
                Inl e \<Rightarrow> Some (Inl e)
              | Inr st \<Rightarrow>
                 (case nodeHeap st of
                    [] \<Rightarrow> Some (Inl IndexOutOfRange)
                  | r # _ \<Rightarrow>
                     if TotalHops (nodes st ! r) < 0 then Some (Inl MakeSliceCap)
                     else if length (nodes st) < length freqs then Some (Inl IndexOutOfRange)
                     else label_loop (nodes st) (take (length freqs) (nodes st)) [])))"

text \<open>
  The calls of \<open>combine\<close> that \<open>Label\<close> makes, in order: each with the number of
  children it asks for and the state it is made in.  The control flow is that of
  \<open>build\<close> and \<open>main_loop\<close>; a panic ends the list.
\<close>

function main_calls :: "int \<Rightarrow> state \<Rightarrow> (int \<times> state) list" where
  "main_calls base st =
     (if 1 < length (nodeHeap st) then
        (base, st) # (case combine base st of Inl e \<Rightarrow> [] | Inr st' \<Rightarrow> main_calls base st')
      else [])"
  by pat_completeness auto
termination
proof (relation "measure (\<lambda>(b, st). length (nodes st) - nextNodeIdx st)")
  show "wf (measure (\<lambda>(b, st). length (nodes st) - nextNodeIdx st))"
    by simp
next
  fix base st st'
  assume "combine base st = Inr st'"
  from combine_Inr_fields [OF this]
  show "((base, st'), (base, st)) \<in> measure (\<lambda>(b, st). length (nodes st) - nextNodeIdx st)"
    by (simp add: diff_less_mono2)
qed

declare main_calls.simps [simp del]

definition combine_calls :: "int \<Rightarrow> go_int list \<Rightarrow> (int \<times> state) list" where
  "combine_calls base freqs =
     (let st = init_state base freqs;
          initial = initial_count base (length (nodeHeap st))
      in if 0 < initial then
           (initial, st) # (case combine initial st of Inl e \<Rightarrow> [] | Inr st1 \<Rightarrow> main_calls base st1)
         else main_calls base st)"

text \<open>
  The helper of the tests that renders a label over an alphabet
  (\<open>alphabet.Label\<close> and \<open>alphabet.Labels\<close> of huffman\_test.go).
\<close>

definition alphabet_Label :: "string \<Rightarrow> int list \<Rightarrow> string" where
  "alphabet_Label items indexes = map (\<lambda>idx. items ! nat idx) indexes"

definition alphabet_Labels :: "string \<Rightarrow> int list list \<Rightarrow> string list" where
  "alphabet_Labels items indexes = map (alphabet_Label items) indexes"

section \<open>Invariants\<close>

text \<open>
  The parent and the sibling position of the pool node \<open>x\<close>, and its frequency read
  as a signed integer.
\<close>

abbreviation par :: "node list \<Rightarrow> nat \<Rightarrow> int" where
  "par ns x \<equiv> ParentIndex (ns ! x)"

abbreviation sib :: "node list \<Rightarrow> nat \<Rightarrow> int" where
  "sib ns x \<equiv> SiblingIndex (ns ! x)"

definition wt :: "node list \<Rightarrow> nat \<Rightarrow> int" where
  "wt ns x = sint (Freq (ns ! x))"

text \<open>
  One round of the loop of \<open>combine\<close> as a state transformer, and the end of
  \<open>combine\<close>: writing the parent and pushing it.
\<close>

definition pop_step :: "nat \<Rightarrow> state \<Rightarrow> nat \<Rightarrow> nat \<Rightarrow> nat list \<Rightarrow> state" where
  "pop_step p st i c h' =
     st\<lparr>nodes := (nodes st)[c := (nodes st ! c)\<lparr>ParentIndex := int p, SiblingIndex := int i\<rparr>],
        nodeHeap := h'\<rparr>"

definition push_parent :: "state \<Rightarrow> nat \<Rightarrow> node \<Rightarrow> state" where
  "push_parent st1 p nd =
     st1\<lparr>nodes := (nodes st1)[p := nd], nodeHeap := heap_Push ((nodes st1)[p := nd]) (nodeHeap st1) p\<rparr>"

text \<open>
  The invariant of the construction.  \<open>linv base C p i ns h\<close> describes the first
  \<open>p\<close> pool nodes inside the call of \<open>combine\<close> that creates node \<open>p\<close>, after
  \<open>i\<close> children were popped: the heap holds exactly the nodes without parent, each
  once; every other node has a parent of larger index, an internal node, and a sibling
  position in \<open>[0, base)\<close>; the children of \<open>p\<close> have positions below \<open>i\<close>; no
  two nodes share parent and position.  \<open>forest\<close> is the invariant between calls.
\<close>

definition linv :: "int \<Rightarrow> nat \<Rightarrow> nat \<Rightarrow> nat \<Rightarrow> node list \<Rightarrow> nat list \<Rightarrow> bool" where
  "linv base C p i ns h \<longleftrightarrow>
     C \<le> p \<and> p \<le> length ns \<and> distinct h \<and> set h \<subseteq> {..<p} \<and>
     (\<forall>x<p. (par ns x = - 1) = (x \<in> set h)) \<and>
     (\<forall>x<p. x \<notin> set h \<longrightarrow>
        int x < par ns x \<and> int C \<le> par ns x \<and> par ns x \<le> int p \<and> 0 \<le> sib ns x \<and> sib ns x < base) \<and>
     (\<forall>x<p. par ns x = int p \<longrightarrow> sib ns x < int i) \<and>
     (\<forall>x<p. \<forall>y<p. x \<notin> set h \<and> y \<notin> set h \<and> par ns x = par ns y \<and> sib ns x = sib ns y \<longrightarrow> x = y) \<and>
     (\<forall>x<p. 0 \<le> TotalHops (ns ! x))"

definition forest :: "int \<Rightarrow> nat \<Rightarrow> state \<Rightarrow> bool" where
  "forest base C st \<longleftrightarrow> linv base C (nextNodeIdx st) 0 (nodes st) (nodeHeap st)"

text \<open>
  The number of rounds allotted, and the invariant of the main loop: the last node
  created is in the heap, the heap length is 1 modulo \<open>base - 1\<close>, and the pool has
  room for the rounds still needed.  \<open>built\<close> collects what a run of \<open>build\<close>
  establishes.
\<close>

definition num_iters :: "int \<Rightarrow> nat \<Rightarrow> nat" where
  "num_iters base C = (C - 1) div nat (base - 1) + 1"

definition loop_inv :: "int \<Rightarrow> nat \<Rightarrow> state \<Rightarrow> bool" where
  "loop_inv base C st \<longleftrightarrow>
     forest base C st \<and> C < nextNodeIdx st \<and> nextNodeIdx st - 1 \<in> set (nodeHeap st) \<and>
     (base - 1) dvd (int (length (nodeHeap st)) - 1) \<and>
     int (nextNodeIdx st) + (int (length (nodeHeap st)) - 1) div (base - 1) \<le> int (length (nodes st))"

definition built :: "int \<Rightarrow> go_int list \<Rightarrow> state \<Rightarrow> state \<Rightarrow> bool" where
  "built base F st1 st \<longleftrightarrow>
     combine (initial_count base (length F)) (init_state base F) = Inr st1
     \<and> build base F = Inr st \<and> main_loop base st1 = Inr st
     \<and> loop_inv base (length F) st1 \<and> loop_inv base (length F) st
     \<and> length (nodeHeap st) = 1
     \<and> length (nodes st) = length F + num_iters base (length F)
     \<and> combine_calls base F = (initial_count base (length F), init_state base F) # main_calls base st1
     \<and> popped (initial_count base (length F)) (init_state base F) = nat (initial_count base (length F))
     \<and> nextNodeIdx st = length F + length (combine_calls base F)
     \<and> nextNodeIdx st \<le> length (nodes st)
     \<and> (\<forall>(k, s) \<in> set (main_calls base st1).
           k = base \<and> popped k s = nat base \<and> nextNodeIdx s < length (nodes s))"

text \<open>
  The finished tree with root \<open>r\<close>, and the path of sibling positions from a node up
  to the root, which is what \<open>walk\<close> appends.  \<open>labelled\<close> collects what a run of
  \<open>Label\<close> on at least two items establishes.
\<close>

definition tree :: "int \<Rightarrow> nat \<Rightarrow> nat \<Rightarrow> nat \<Rightarrow> node list \<Rightarrow> bool" where
  "tree base C m r ns \<longleftrightarrow> linv base C m 0 ns [r]"

function up_path :: "node list \<Rightarrow> nat \<Rightarrow> nat \<Rightarrow> int list" where
  "up_path ns m x =
     (if int x < par ns x \<and> par ns x < int m then sib ns x # up_path ns m (nat (par ns x)) else [])"
  by pat_completeness auto

termination
  by (relation "measure (\<lambda>(ns, m, x). m - x)") auto

declare up_path.simps [simp del]

definition labelled :: "int \<Rightarrow> go_int list \<Rightarrow> state \<Rightarrow> bool" where
  "labelled base F st \<longleftrightarrow>
     build base F = Inr st
     \<and> tree base (length F) (nextNodeIdx st) (nextNodeIdx st - 1) (nodes st)
     \<and> length F \<le> nextNodeIdx st - 1
     \<and> nodeHeap st = [nextNodeIdx st - 1]
     \<and> Label base F = Some (Inr (map (\<lambda>x. rev (up_path (nodes st) (nextNodeIdx st) x)) [0..<length F]))"

text \<open>
  The children of an internal node \<open>p\<close> among the first \<open>m\<close> pool nodes, as a list
  and as a set, and the invariant on their number.
\<close>

definition children :: "node list \<Rightarrow> nat \<Rightarrow> nat \<Rightarrow> nat list" where
  "children ns m p = filter (\<lambda>x. ParentIndex (ns ! x) = int p) [0..<m]"

definition kids :: "node list \<Rightarrow> nat \<Rightarrow> nat \<Rightarrow> nat set" where
  "kids ns m p = {x. x < m \<and> par ns x = int p}"

definition kids_inv :: "int \<Rightarrow> nat \<Rightarrow> state \<Rightarrow> bool" where
  "kids_inv base C s \<longleftrightarrow>
     (\<forall>p. C \<le> p \<and> p < nextNodeIdx s \<longrightarrow>
        card (kids (nodes s) (nextNodeIdx s) p) = (if p = C then nat (initial_count base C) else nat base))"

text \<open>
  The order of the heap.  \<open>key\<close> is the frequency at a heap position and \<open>pa\<close> the
  parent position; \<open>heap_from ns h lo n\<close> says that among the first \<open>n\<close> positions
  every position with a parent at \<open>lo\<close> or above has a key no smaller than its
  parent's.  \<open>down_inv\<close> and \<open>up_inv\<close> are the invariants of the two sift loops: the
  heap order holds except around the position being sifted.
\<close>

definition key :: "node list \<Rightarrow> nat list \<Rightarrow> nat \<Rightarrow> int" where
  "key ns h i = wt ns (h ! i)"

definition pa :: "nat \<Rightarrow> nat" where
  "pa c = (c - 1) div 2"

definition heap_from :: "node list \<Rightarrow> nat list \<Rightarrow> nat \<Rightarrow> nat \<Rightarrow> bool" where
  "heap_from ns h lo n \<longleftrightarrow>
     (\<forall>c. 0 < c \<and> c < n \<and> lo \<le> pa c \<longrightarrow> key ns h (pa c) \<le> key ns h c)"

definition down_inv :: "node list \<Rightarrow> nat list \<Rightarrow> nat \<Rightarrow> nat \<Rightarrow> nat \<Rightarrow> bool" where
  "down_inv ns h lo i n \<longleftrightarrow>
     lo \<le> i \<and> n \<le> length h \<and>
     (\<forall>c. 0 < c \<and> c < n \<and> lo \<le> pa c \<and> pa c \<noteq> i \<longrightarrow> key ns h (pa c) \<le> key ns h c) \<and>
     (\<forall>c. 0 < c \<and> c < n \<and> pa c = i \<and> 0 < i \<and> lo \<le> pa i \<longrightarrow> key ns h (pa i) \<le> key ns h c)"

definition up_inv :: "node list \<Rightarrow> nat list \<Rightarrow> nat \<Rightarrow> nat \<Rightarrow> bool" where
  "up_inv ns h j n \<longleftrightarrow>
     j < n \<and> n \<le> length h \<and>
     (\<forall>c. 0 < c \<and> c < n \<and> c \<noteq> j \<longrightarrow> key ns h (pa c) \<le> key ns h c) \<and>
     (\<forall>c. 0 < c \<and> c < n \<and> pa c = j \<and> 0 < j \<longrightarrow> key ns h (pa j) \<le> key ns h c)"

definition is_heap :: "node list \<Rightarrow> nat list \<Rightarrow> bool" where
  "is_heap ns h \<longleftrightarrow> heap_from ns h 0 (length h)"

text \<open>
  The invariant on the weights, for frequencies whose absolute values add up to at
  most \<open>T\<close>: the heap is ordered; the absolute values of the weights in the heap
  and of the accumulator \<open>g\<close> of the running call add up to at most \<open>T\<close>, so that
  no sum overflows when \<open>T\<close> fits the type; a node that has been popped is no heavier
  than a node that was in the heap at that time, be it still there or popped later;
  the weight of an internal node is the sum of its children's.  \<open>born C ns y x\<close>
  says that \<open>y\<close> existed when \<open>x\<close> was popped, and \<open>before\<close> compares the time two
  nodes were popped: by parent, then by sibling position.
\<close>

definition habs :: "node list \<Rightarrow> nat list \<Rightarrow> int" where
  "habs ns h = sum_mset (image_mset (\<lambda>x. \<bar>wt ns x\<bar>) (mset h))"

definition before :: "node list \<Rightarrow> nat \<Rightarrow> nat \<Rightarrow> bool" where
  "before ns x y \<longleftrightarrow> par ns x < par ns y \<or> (par ns x = par ns y \<and> sib ns x \<le> sib ns y)"

definition born :: "nat \<Rightarrow> node list \<Rightarrow> nat \<Rightarrow> nat \<Rightarrow> bool" where
  "born C ns y x \<longleftrightarrow> y < C \<or> int y < par ns x"

definition winv :: "nat \<Rightarrow> int \<Rightarrow> nat \<Rightarrow> int \<Rightarrow> node list \<Rightarrow> nat list \<Rightarrow> bool" where
  "winv C T p g ns h \<longleftrightarrow>
     is_heap ns h \<and>
     \<bar>g\<bar> + habs ns h \<le> T \<and>
     (\<forall>x<p. \<forall>y \<in> set h. x \<notin> set h \<and> born C ns y x \<longrightarrow> wt ns x \<le> wt ns y) \<and>
     (\<forall>x<p. \<forall>y<p. x \<notin> set h \<and> y \<notin> set h \<and> before ns x y \<and> born C ns y x \<longrightarrow> wt ns x \<le> wt ns y) \<and>
     (\<forall>q. C \<le> q \<and> q < p \<longrightarrow> wt ns q = sum (wt ns) (kids ns p q)) \<and>
     g = sum (wt ns) (kids ns p p)"

definition wforest :: "nat \<Rightarrow> int \<Rightarrow> state \<Rightarrow> bool" where
  "wforest C T st \<longleftrightarrow> winv C T (nextNodeIdx st) 0 (nodes st) (nodeHeap st)"

text \<open>
  The finished tree of \<open>m\<close> nodes with what the invariants say about it: the root is
  the last node, the first internal node has \<open>k0\<close> children and the others \<open>nb\<close>.
  A step, the call of \<open>combine\<close> that creates the internal node \<open>q\<close>, is
  \<open>nonneg_step\<close> when no node it pops has a negative weight.
\<close>

definition nonneg_step :: "node list \<Rightarrow> nat \<Rightarrow> nat \<Rightarrow> bool" where
  "nonneg_step ns m q \<longleftrightarrow> (\<forall>c. c \<in> kids ns m q \<longrightarrow> 0 \<le> wt ns c)"

definition huff :: "int \<Rightarrow> nat \<Rightarrow> nat \<Rightarrow> nat \<Rightarrow> nat \<Rightarrow> node list \<Rightarrow> bool" where
  "huff base C k0 nb m ns \<longleftrightarrow>
     tree base C m (m - 1) ns \<and> 2 \<le> k0 \<and> k0 \<le> nb \<and>
     (\<forall>x<m. \<forall>y<m. x \<noteq> m - 1 \<and> y \<noteq> m - 1 \<and> before ns x y \<and> born C ns y x \<longrightarrow> wt ns x \<le> wt ns y) \<and>
     (\<forall>q. C \<le> q \<and> q < m \<longrightarrow> wt ns q = sum (wt ns) (kids ns m q)) \<and>
     (\<forall>q. C \<le> q \<and> q < m \<longrightarrow> card (kids ns m q) = (if q = C then k0 else nb))"

section \<open>Proofs\<close>

subsection \<open>The heap operations permute the heap\<close>

lemma length_Swap [simp]: "length (Swap h i j) = length h"
  by (simp add: Swap_def)

lemma mset_Swap: "i < length h \<Longrightarrow> j < length h \<Longrightarrow> mset (Swap h i j) = mset h"
  unfolding Swap_def by (simp add: mset_swap)

lemma Swap_nth_other: "k \<noteq> i \<Longrightarrow> k \<noteq> j \<Longrightarrow> Swap h i j ! k = h ! k"
  by (simp add: Swap_def)

lemma up_props: "j < length h \<Longrightarrow> length (up ns h j) = length h \<and> mset (up ns h j) = mset h"
proof (induction ns h j rule: up.induct)
  case (1 ns h j)
  show ?case
  proof (cases "(j - 1) div 2 = j \<or> \<not> Less ns h j ((j - 1) div 2)")
    case True
    then have "up ns h j = h" by (subst up.simps) (simp add: Let_def)
    then show ?thesis by simp
  next
    case False
    have lt: "(j - 1) div 2 < length h" using "1.prems" by linarith
    have eq: "up ns h j = up ns (Swap h ((j - 1) div 2) j) ((j - 1) div 2)"
      using False by (subst up.simps) (simp add: Let_def)
    from "1.IH" [OF refl False] lt "1.prems"
    show ?thesis unfolding eq by (simp add: mset_Swap)
  qed
qed

lemma down_props:
  "n \<le> length h \<Longrightarrow>
     length (down ns h i n) = length h \<and> mset (down ns h i n) = mset h
     \<and> (\<forall>k. n \<le> k \<longrightarrow> down ns h i n ! k = h ! k)"
proof (induction ns h i n rule: down.induct)
  case (1 ns h i n)
  define j1 where "j1 = 2 * i + 1"
  define j where "j = (if j1 + 1 < n \<and> Less ns h (j1 + 1) j1 then j1 + 1 else j1)"
  show ?case
  proof (cases "n \<le> j1 \<or> \<not> Less ns h j i")
    case True
    have "down ns h i n = h"
      using True by (subst down.simps) (auto simp: Let_def j1_def j_def)
    then show ?thesis by simp
  next
    case False
    then have j1n: "j1 < n" and less: "Less ns h j i" by auto
    have jn: "j < n" using j1n by (simp add: j_def)
    have i_n: "i < n" using j1n by (simp add: j1_def)
    have eq: "down ns h i n = down ns (Swap h i j) j n"
      using False by (subst down.simps) (auto simp: Let_def j1_def j_def)
    have nle: "\<not> n \<le> j1" using j1n by simp
    have IH: "length (down ns (Swap h i j) j n) = length (Swap h i j) \<and>
      mset (down ns (Swap h i j) j n) = mset (Swap h i j) \<and>
      (\<forall>k\<ge>n. down ns (Swap h i j) j n ! k = Swap h i j ! k)"
      using "1.IH" [OF j1_def nle refl, of j] less "1.prems"
      by (simp add: j_def j1_def)
    show ?thesis unfolding eq using IH jn i_n "1.prems"
      by (simp add: mset_Swap Swap_nth_other)
  qed
qed

lemma init_loop_props:
  "n = length h \<Longrightarrow> length (init_loop ns h k n) = length h \<and> mset (init_loop ns h k n) = mset h"
proof (induction k arbitrary: h)
  case 0
  then show ?case by simp
next
  case (Suc k)
  have d: "length (down ns h k n) = length h" "mset (down ns h k n) = mset h"
    using down_props [of n h ns k] Suc.prems by simp_all
  from Suc.IH [of "down ns h k n"] d Suc.prems show ?case by simp
qed

lemma heap_Init_props: "length (heap_Init ns h) = length h \<and> mset (heap_Init ns h) = mset h"
  by (simp add: heap_Init_def Let_def init_loop_props)

lemma heap_Push_props:
  "length (heap_Push ns h x) = Suc (length h) \<and> mset (heap_Push ns h x) = add_mset x (mset h)"
  by (simp add: heap_Push_def Let_def up_props)

lemma heap_Pop_props:
  assumes "h \<noteq> []" and "heap_Pop ns h = (c, h')"
  shows "length h' = length h - 1 \<and> mset h = add_mset c (mset h')"
proof -
  define n where "n = length h - 1"
  define h2 where "h2 = down ns (Swap h 0 n) 0 n"
  have n: "n < length h" using assms(1) by (simp add: n_def)
  have dp: "length h2 = length h" "mset h2 = mset h"
    using down_props [of n "Swap h 0 n" ns 0] n mset_Swap [of 0 h n] assms(1)
    by (simp_all add: h2_def)
  have c: "c = h2 ! n" and h': "h' = take n h2"
    using assms(2) by (simp_all add: heap_Pop_def Let_def n_def h2_def)
  have "h2 = take n h2 @ [h2 ! n]"
    using dp(1) n by (metis n_def Suc_diff_1 length_greater_0_conv assms(1) take_Suc_conv_app_nth take_all order_refl)
  then have "mset h2 = add_mset c (mset h')"
    unfolding c h' by (metis mset.simps(2) mset_append union_mset_add_mset_right add.right_neutral mset.simps(1))
  with dp n show ?thesis by (simp add: h' n_def)
qed

subsection \<open>\<open>combine\<close> keeps the forest\<close>

lemma linv_step:
  assumes inv: "linv base C p i ns h" and ne: "h \<noteq> []" and pop: "heap_Pop ns h = (c, h')"
    and ib: "int i < base"
  shows "linv base C p (Suc i) (ns[c := (ns ! c)\<lparr>ParentIndex := int p, SiblingIndex := int i\<rparr>]) h'"
proof -
  let ?ns = "ns[c := (ns ! c)\<lparr>ParentIndex := int p, SiblingIndex := int i\<rparr>]"
  from heap_Pop_props [OF ne pop] have ms: "mset h = add_mset c (mset h')" by simp
  from inv have Cp: "C \<le> p" and pl: "p \<le> length ns" and dh: "distinct h" and sh: "set h \<subseteq> {..<p}"
    and roots: "\<And>x. x < p \<Longrightarrow> (par ns x = - 1) = (x \<in> set h)"
    and inner: "\<And>x. x < p \<Longrightarrow> x \<notin> set h \<Longrightarrow>
        int x < par ns x \<and> int C \<le> par ns x \<and> par ns x \<le> int p \<and> 0 \<le> sib ns x \<and> sib ns x < base"
    and cur: "\<And>x. x < p \<Longrightarrow> par ns x = int p \<Longrightarrow> sib ns x < int i"
    and inj: "\<And>x y. x < p \<Longrightarrow> y < p \<Longrightarrow> x \<notin> set h \<Longrightarrow> y \<notin> set h \<Longrightarrow>
        par ns x = par ns y \<Longrightarrow> sib ns x = sib ns y \<Longrightarrow> x = y"
    and hops: "\<And>x. x < p \<Longrightarrow> 0 \<le> TotalHops (ns ! x)"
    unfolding linv_def by blast+
  have seth: "set h = insert c (set h')"
    using ms by (metis set_mset_mset set_mset_add_mset_insert)
  have "distinct (c # h')"
    using dh ms by (metis distinct_count_atmost_1 mset.simps(2) set_mset_mset)
  then have cn: "c \<notin> set h'" and dh': "distinct h'" by simp_all
  have cp: "c < p" using sh seth by auto
  then have cl: "c < length ns" using pl by simp
  have par_c: "par ?ns c = int p" and sib_c: "sib ?ns c = int i" 
    and hops_c: "TotalHops (?ns ! c) = TotalHops (ns ! c)" using cl by simp_all
  have other: "\<And>x. x \<noteq> c \<Longrightarrow> ?ns ! x = ns ! x" by simp
  have mem: "\<And>x. x \<noteq> c \<Longrightarrow> (x \<in> set h') = (x \<in> set h)" using seth by auto
  have 1: "set h' \<subseteq> {..<p}" using sh seth by auto
  have 2: "\<forall>x<p. (par ?ns x = - 1) = (x \<in> set h')"
  proof (intro allI impI)
    fix x assume "x < p"
    show "(par ?ns x = - 1) = (x \<in> set h')"
    proof (cases "x = c")
      case True then show ?thesis using par_c cn by simp
    next
      case False then show ?thesis using other [OF False] mem [OF False] roots [OF \<open>x < p\<close>] by simp
    qed
  qed
  have 3: "\<forall>x<p. x \<notin> set h' \<longrightarrow>
        int x < par ?ns x \<and> int C \<le> par ?ns x \<and> par ?ns x \<le> int p \<and> 0 \<le> sib ?ns x \<and> sib ?ns x < base"
  proof (intro allI impI)
    fix x assume xp: "x < p" and "x \<notin> set h'"
    show "int x < par ?ns x \<and> int C \<le> par ?ns x \<and> par ?ns x \<le> int p \<and> 0 \<le> sib ?ns x \<and> sib ?ns x < base"
    proof (cases "x = c")
      case True then show ?thesis using par_c sib_c cp Cp ib by simp
    next
      case False
      then have "x \<notin> set h" using \<open>x \<notin> set h'\<close> mem by simp
      from inner [OF xp this] other [OF False] show ?thesis by simp
    qed
  qed
  have 4: "\<forall>x<p. par ?ns x = int p \<longrightarrow> sib ?ns x < int (Suc i)"
  proof (intro allI impI)
    fix x assume xp: "x < p" and pp: "par ?ns x = int p"
    show "sib ?ns x < int (Suc i)"
    proof (cases "x = c")
      case True then show ?thesis using sib_c by simp
    next
      case False
      with pp cur [OF xp] other [OF False] show ?thesis by simp
    qed
  qed
  have 5: "\<forall>x<p. \<forall>y<p. x \<notin> set h' \<and> y \<notin> set h' \<and> par ?ns x = par ?ns y \<and> sib ?ns x = sib ?ns y \<longrightarrow> x = y"
  proof (intro allI impI)
    fix x y assume xp: "x < p" and yp: "y < p"
      and a: "x \<notin> set h' \<and> y \<notin> set h' \<and> par ?ns x = par ?ns y \<and> sib ?ns x = sib ?ns y"
    show "x = y"
    proof (cases "x = c"; cases "y = c")
      assume "x = c" "y = c" then show ?thesis by simp
    next
      assume xc: "x = c" and yc: "y \<noteq> c"
      from a xc par_c other [OF yc] have "par ns y = int p" by simp
      from cur [OF yp this] a xc sib_c other [OF yc] show ?thesis by simp
    next
      assume xc: "x \<noteq> c" and yc: "y = c"
      from a yc par_c other [OF xc] have "par ns x = int p" by simp
      from cur [OF xp this] a yc sib_c other [OF xc] show ?thesis by simp
    next
      assume xc: "x \<noteq> c" and yc: "y \<noteq> c"
      with a mem have "x \<notin> set h" "y \<notin> set h" by simp_all
      from inj [OF xp yp this] a other [OF xc] other [OF yc] show ?thesis by simp
    qed
  qed
  have 6: "\<forall>x<p. 0 \<le> TotalHops (?ns ! x)"
  proof (intro allI impI)
    fix x assume xp: "x < p"
    show "0 \<le> TotalHops (?ns ! x)"
      using hops [OF xp] hops [OF cp] hops_c other [of x] by (cases "x = c") simp_all
  qed
  show ?thesis
    unfolding linv_def using Cp pl dh' 1 2 3 4 5 6 by (simp only: length_list_update)
qed

lemma combine_loop_unfold:
  "combine_loop k p st i f t =
     (if int i < k \<and> nodeHeap st \<noteq> [] then
        combine_loop k p (pop_step p st i (fst (heap_Pop (nodes st) (nodeHeap st)))
                            (snd (heap_Pop (nodes st) (nodeHeap st))))
          (Suc i) (f + Freq (nodes st ! fst (heap_Pop (nodes st) (nodeHeap st))))
          (t + TotalHops (nodes st ! fst (heap_Pop (nodes st) (nodeHeap st))))
      else (st, i, f, t))"
  by (subst combine_loop.simps) (simp add: pop_step_def Let_def split: prod.splits)

lemma combine_loop_rule:
  assumes "Q st i f t"
    and res: "combine_loop k p st i f t = (st', i', f', t')"
    and step: "\<And>st i f t c h'. Q st i f t \<Longrightarrow> int i < k \<Longrightarrow> nodeHeap st \<noteq> [] \<Longrightarrow>
        heap_Pop (nodes st) (nodeHeap st) = (c, h') \<Longrightarrow>
        Q (pop_step p st i c h') (Suc i) (f + Freq (nodes st ! c)) (t + TotalHops (nodes st ! c))"
  shows "Q st' i' f' t' \<and> \<not> (int i' < k \<and> nodeHeap st' \<noteq> [])"
  using assms(1,2)
proof (induction n \<equiv> "nat (k - int i)" arbitrary: st i f t)
  case 0
  then have "\<not> int i < k" by simp
  with "0.prems" show ?case
    by (subst (asm) combine_loop_unfold) auto
next
  case (Suc n)
  show ?case
  proof (cases "int i < k \<and> nodeHeap st \<noteq> []")
    case False
    with Suc.prems show ?thesis
      by (subst (asm) combine_loop_unfold) auto
  next
    case True
    obtain c h' where pop: "heap_Pop (nodes st) (nodeHeap st) = (c, h')"
      by (cases "heap_Pop (nodes st) (nodeHeap st)")
    from True have a: "int i < k" and b: "nodeHeap st \<noteq> []" by simp_all
    have Q': "Q (pop_step p st i c h') (Suc i) (f + Freq (nodes st ! c)) (t + TotalHops (nodes st ! c))"
      by (rule step [OF Suc.prems(1) a b pop])
    have "combine_loop k p st i f t =
      combine_loop k p (pop_step p st i c h') (Suc i) (f + Freq (nodes st ! c)) (t + TotalHops (nodes st ! c))"
      using True pop by (subst combine_loop_unfold) simp
    with Suc.prems(2)
    have r: "combine_loop k p (pop_step p st i c h') (Suc i) (f + Freq (nodes st ! c)) (t + TotalHops (nodes st ! c))
       = (st', i', f', t')" by simp
    have n: "n = nat (k - int (Suc i))" using Suc.hyps(2) by simp
    from Suc.hyps(1) [OF n Q' r] show ?thesis .
  qed
qed

lemma combine_loop_linv:
  assumes inv: "linv base C p i (nodes st) (nodeHeap st)" and kb: "k \<le> base" and t0: "0 \<le> t"
    and ik: "int i \<le> k"
    and res: "combine_loop k p st i f t = (st', i', f', t')"
  shows "linv base C p i' (nodes st') (nodeHeap st') \<and> 0 \<le> t' \<and> nextNodeIdx st' = nextNodeIdx st
     \<and> i' + length (nodeHeap st') = i + length (nodeHeap st) \<and> i \<le> i' \<and> int i' \<le> k
     \<and> \<not> (int i' < k \<and> nodeHeap st' \<noteq> [])"
proof -
  define Q where "Q = (\<lambda>(s::state) j (g::go_int) u. linv base C p j (nodes s) (nodeHeap s) \<and> (0::int) \<le> u
     \<and> nextNodeIdx s = nextNodeIdx st \<and> j + length (nodeHeap s) = i + length (nodeHeap st) \<and> i \<le> j
     \<and> int j \<le> k)"
  have Q0: "Q st i f t" using inv t0 ik by (simp add: Q_def)
  have "Q st' i' f' t' \<and> \<not> (int i' < k \<and> nodeHeap st' \<noteq> [])"
  proof (rule combine_loop_rule [where Q = Q, OF Q0 res])
    fix s j g u c h'
    assume q: "Q s j g u" and jk: "int j < k" and ne: "nodeHeap s \<noteq> []"
      and pop: "heap_Pop (nodes s) (nodeHeap s) = (c, h')"
    from q have li: "linv base C p j (nodes s) (nodeHeap s)" by (simp add: Q_def)
    from linv_step [OF li ne pop] jk kb
    have 1: "linv base C p (Suc j) (nodes (pop_step p s j c h')) (nodeHeap (pop_step p s j c h'))"
      by (simp add: pop_step_def)
    from heap_Pop_props [OF ne pop] have len: "length h' = length (nodeHeap s) - 1"
      and ms: "mset (nodeHeap s) = add_mset c (mset h')" by simp_all
    have "c \<in> set (nodeHeap s)" using ms by (metis set_mset_mset union_single_eq_member)
    then have "c < p" using li unfolding linv_def by auto
    then have "0 \<le> TotalHops (nodes s ! c)" using li unfolding linv_def by blast
    with q 1 len ne jk show "Q (pop_step p s j c h') (Suc j) (g + Freq (nodes s ! c)) (u + TotalHops (nodes s ! c))"
      by (cases "nodeHeap s") (simp_all add: Q_def pop_step_def)
  qed
  then show ?thesis by (simp add: Q_def)
qed

lemma linv_close:
  assumes inv: "linv base C p i ns h" and pl: "p < length ns" and h0: "0 \<le> hops"
    and ms: "mset h2 = add_mset p (mset h)"
  shows "linv base C (Suc p) 0
           (ns[p := \<lparr>ParentIndex = - 1, SiblingIndex = - 1, TotalHops = hops, Freq = f\<rparr>]) h2"
proof -
  let ?ns = "ns[p := \<lparr>ParentIndex = - 1, SiblingIndex = - 1, TotalHops = hops, Freq = f\<rparr>]"
  from inv have Cp: "C \<le> p" and dh: "distinct h" and sh: "set h \<subseteq> {..<p}"
    and roots: "\<And>x. x < p \<Longrightarrow> (par ns x = - 1) = (x \<in> set h)"
    and inner: "\<And>x. x < p \<Longrightarrow> x \<notin> set h \<Longrightarrow>
        int x < par ns x \<and> int C \<le> par ns x \<and> par ns x \<le> int p \<and> 0 \<le> sib ns x \<and> sib ns x < base"
    and inj: "\<And>x y. x < p \<Longrightarrow> y < p \<Longrightarrow> x \<notin> set h \<Longrightarrow> y \<notin> set h \<Longrightarrow>
        par ns x = par ns y \<Longrightarrow> sib ns x = sib ns y \<Longrightarrow> x = y"
    and hops: "\<And>x. x < p \<Longrightarrow> 0 \<le> TotalHops (ns ! x)"
    unfolding linv_def by blast+
  have seth: "set h2 = insert p (set h)"
    using ms by (metis set_mset_mset set_mset_add_mset_insert)
  have pn: "p \<notin> set h" using sh by auto
  have "distinct (p # h)" using dh pn by simp
  then have d2: "distinct h2"
    using ms by (metis distinct_count_atmost_1 mset.simps(2) set_mset_mset)
  have at_p: "?ns ! p = \<lparr>ParentIndex = - 1, SiblingIndex = - 1, TotalHops = hops, Freq = f\<rparr>"
    using pl by simp
  have other: "\<And>x. x < p \<Longrightarrow> ?ns ! x = ns ! x" by simp
  have lt: "\<And>x. x < Suc p \<Longrightarrow> x \<noteq> p \<Longrightarrow> x < p" by simp
  have 1: "set h2 \<subseteq> {..<Suc p}" using sh seth by auto
  have 2: "\<forall>x<Suc p. (par ?ns x = - 1) = (x \<in> set h2)"
  proof (intro allI impI)
    fix x assume "x < Suc p"
    show "(par ?ns x = - 1) = (x \<in> set h2)"
    proof (cases "x = p")
      case True then show ?thesis using at_p seth by simp
    next
      case False
      with \<open>x < Suc p\<close> have xp: "x < p" by simp
      with other [OF xp] roots [OF xp] seth False show ?thesis by simp
    qed
  qed
  have notin: "\<And>x. x < Suc p \<Longrightarrow> x \<notin> set h2 \<Longrightarrow> x < p \<and> x \<notin> set h"
    using seth by (metis insertCI less_SucE)
  have 3: "\<forall>x<Suc p. x \<notin> set h2 \<longrightarrow>
        int x < par ?ns x \<and> int C \<le> par ?ns x \<and> par ?ns x \<le> int (Suc p) \<and> 0 \<le> sib ?ns x \<and> sib ?ns x < base"
  proof (intro allI impI)
    fix x assume "x < Suc p" "x \<notin> set h2"
    from notin [OF this] have xp: "x < p" and xh: "x \<notin> set h" by simp_all
    from inner [OF xp xh] other [OF xp]
    show "int x < par ?ns x \<and> int C \<le> par ?ns x \<and> par ?ns x \<le> int (Suc p) \<and> 0 \<le> sib ?ns x \<and> sib ?ns x < base"
      by simp
  qed
  have 4: "\<forall>x<Suc p. par ?ns x = int (Suc p) \<longrightarrow> sib ?ns x < int 0"
  proof (intro allI impI)
    fix x assume xs: "x < Suc p" and pp: "par ?ns x = int (Suc p)"
    have "x \<notin> set h2" using 2 xs pp by auto
    from notin [OF xs this] have xp: "x < p" and xh: "x \<notin> set h" by simp_all
    from inner [OF xp xh] other [OF xp] pp show "sib ?ns x < int 0" by simp
  qed
  have 5: "\<forall>x<Suc p. \<forall>y<Suc p. x \<notin> set h2 \<and> y \<notin> set h2 \<and> par ?ns x = par ?ns y \<and> sib ?ns x = sib ?ns y \<longrightarrow> x = y"
  proof (intro allI impI)
    fix x y assume xs: "x < Suc p" and ys: "y < Suc p"
      and a: "x \<notin> set h2 \<and> y \<notin> set h2 \<and> par ?ns x = par ?ns y \<and> sib ?ns x = sib ?ns y"
    from notin [OF xs] a have xp: "x < p" and xh: "x \<notin> set h" by simp_all
    from notin [OF ys] a have yp: "y < p" and yh: "y \<notin> set h" by simp_all
    from inj [OF xp yp xh yh] a other [OF xp] other [OF yp] show "x = y" by simp
  qed
  have 6: "\<forall>x<Suc p. 0 \<le> TotalHops (?ns ! x)"
  proof (intro allI impI)
    fix x assume xs: "x < Suc p"
    show "0 \<le> TotalHops (?ns ! x)"
      using hops [of x] other [of x] at_p h0 xs by (cases "x = p") simp_all
  qed
  have 0: "C \<le> Suc p" "Suc p \<le> length ?ns" using Cp pl by simp_all
  show ?thesis
    unfolding linv_def using 0 d2 1 2 3 4 5 6 by blast
qed

lemma combine_forest:
  assumes f: "forest base C st" and k0: "0 \<le> k" and kb: "k \<le> base" and c: "combine k st = Inr st'"
  shows "forest base C st' \<and> nextNodeIdx st' = Suc (nextNodeIdx st)
     \<and> length (nodes st') = length (nodes st) \<and> nextNodeIdx st < length (nodes st)
     \<and> nextNodeIdx st \<in> set (nodeHeap st')
     \<and> popped k st = min (nat k) (length (nodeHeap st))
     \<and> length (nodeHeap st') = Suc (length (nodeHeap st) - popped k st)"
proof -
  let ?p = "nextNodeIdx st"
  let ?st0 = "st\<lparr>nextNodeIdx := ?p + 1\<rparr>"
  obtain st1 i f t where cl: "combine_loop k ?p ?st0 0 0 0 = (st1, i, f, t)"
    using prod_cases4 by blast
  have inv0: "linv base C ?p 0 (nodes ?st0) (nodeHeap ?st0)" using f by (simp add: forest_def)
  from combine_loop_linv [OF inv0 kb _ _ cl] k0
  have inv1: "linv base C ?p i (nodes st1) (nodeHeap st1)" and t: "0 \<le> t"
    and len: "i + length (nodeHeap st1) = length (nodeHeap st)" and ik: "int i \<le> k"
    and stop: "\<not> (int i < k \<and> nodeHeap st1 \<noteq> [])"
    and nx: "nextNodeIdx st1 = Suc ?p"
    by simp_all
  have fields: "length (nodes st1) = length (nodes st)"
    using combine_loop_fields [OF cl] by simp
  let ?new = "\<lparr>ParentIndex = - 1, SiblingIndex = - 1, TotalHops = t + k, Freq = f\<rparr>"
  let ?ns = "(nodes st1)[?p := ?new]"
  from c have pl: "?p < length (nodes st1)"
    unfolding combine_def Let_def cl by (simp split: if_splits)
  with c have st': "st' = st1\<lparr>nodes := ?ns, nodeHeap := heap_Push ?ns (nodeHeap st1) ?p\<rparr>"
    unfolding combine_def Let_def cl by simp
  have ms: "mset (heap_Push ?ns (nodeHeap st1) ?p) = add_mset ?p (mset (nodeHeap st1))"
    and lp: "length (heap_Push ?ns (nodeHeap st1) ?p) = Suc (length (nodeHeap st1))"
    using heap_Push_props by simp_all
  have tk: "0 \<le> t + k" using t k0 by simp
  have F: "forest base C st'"
    unfolding forest_def st' using linv_close [OF inv1 pl tk ms] nx by simp
  have pin: "?p \<in> set (nodeHeap st')"
    unfolding st' using ms by (metis select_convs(2) set_mset_mset union_single_eq_member surjective update_convs(1,2))
  have pop: "popped k st = i" unfolding popped_def cl by simp
  have imin: "i = min (nat k) (length (nodeHeap st))"
    using len ik stop by (cases "nodeHeap st1 = []") auto
  show ?thesis
    using F pin pop imin len lp nx fields pl by (simp add: st')
qed

subsection \<open>The run of \<open>build\<close>\<close>

lemma go_quot_nonneg: "0 \<le> a \<Longrightarrow> 0 < b \<Longrightarrow> go_quot a b = a div b"
  by (cases "a = 0") (simp_all add: go_quot_def)

lemma go_rem_nonneg: "0 \<le> a \<Longrightarrow> 0 < b \<Longrightarrow> go_rem a b = a mod b"
  by (simp add: go_rem_def go_quot_nonneg minus_mult_div_eq_mod)

lemma init_state_fields:
  assumes b: "2 \<le> base" and C: "1 \<le> length F"
  shows "nextNodeIdx (init_state base F) = length F"
    and "length (nodes (init_state base F)) = length F + num_iters base (length F)"
    and "mset (nodeHeap (init_state base F)) = mset [0..<length F]"
    and "length (nodeHeap (init_state base F)) = length F"
    and "\<And>x. x < length F \<Longrightarrow> nodes (init_state base F) ! x = leaf_node (F ! x)"
proof -
  have ne: "F \<noteq> []" using C by auto
  have a0: "0 \<le> int (length F) - 1" and b0: "0 < base - 1" using b ne by simp_all
  have "int ((length F - 1) div nat (base - 1)) = int (length F - 1) div int (nat (base - 1))"
    by (rule zdiv_int)
  also have "\<dots> = (int (length F) - 1) div (base - 1)"
    using b C by (auto simp: of_nat_diff Suc_le_eq)
  finally have q: "go_quot (int (length F) - 1) (base - 1) = int ((length F - 1) div nat (base - 1))"
    using go_quot_nonneg [OF a0 b0] by simp
  have n: "nat (int (length F) + (go_quot (int (length F) - 1) (base - 1) + 1)) - length F
      = num_iters base (length F)"
    unfolding q num_iters_def by simp
  show "nextNodeIdx (init_state base F) = length F"
    by (simp add: init_state_def Let_def)
  show "length (nodes (init_state base F)) = length F + num_iters base (length F)"
    using n by (simp add: init_state_def Let_def)
  show "mset (nodeHeap (init_state base F)) = mset [0..<length F]"
    using heap_Init_props by (simp add: init_state_def Let_def)
  show "length (nodeHeap (init_state base F)) = length F"
    using heap_Init_props by (simp add: init_state_def Let_def)
  show "\<And>x. x < length F \<Longrightarrow> nodes (init_state base F) ! x = leaf_node (F ! x)"
    by (simp add: init_state_def Let_def nth_append)
qed

lemma init_state_forest:
  assumes b: "2 \<le> base" and C: "1 \<le> length F"
  shows "forest base (length F) (init_state base F)"
proof -
  let ?st = "init_state base F"
  note f = init_state_fields [OF b C]
  have seth: "set (nodeHeap ?st) = {..<length F}"
    using f(3) by (metis atLeast_upt set_mset_mset set_upt)
  have dh: "distinct (nodeHeap ?st)"
    using f(3) by (metis distinct_upt mset_eq_imp_distinct_iff)
  have leaf: "\<And>x. x < length F \<Longrightarrow> par (nodes ?st) x = - 1 \<and> TotalHops (nodes ?st ! x) = 0"
    using f(5) by (simp add: leaf_node_def)
  show ?thesis
    unfolding forest_def linv_def f(1) using f(2) seth dh leaf by auto
qed

lemma combine_ok:
  assumes "nextNodeIdx st < length (nodes st)"
  shows "\<exists>st'. combine k st = Inr st'"
proof -
  obtain st1 i f t where cl:
    "combine_loop k (nextNodeIdx st) (st\<lparr>nextNodeIdx := nextNodeIdx st + 1\<rparr>) 0 0 0 = (st1, i, f, t)"
    using prod_cases4 by blast
  from combine_loop_fields [OF cl] assms have "nextNodeIdx st < length (nodes st1)" by simp
  then show ?thesis unfolding combine_def Let_def cl by simp
qed

lemma loop_inv_step:
  assumes b: "2 \<le> base" and inv: "loop_inv base C st" and more: "1 < length (nodeHeap st)"
  shows "\<exists>st'. combine base st = Inr st' \<and> loop_inv base C st' \<and> popped base st = nat base
     \<and> nextNodeIdx st < length (nodes st) \<and> length (nodes st') = length (nodes st)
     \<and> nextNodeIdx st' = Suc (nextNodeIdx st)"
proof -
  let ?L = "int (length (nodeHeap st))"
  from inv have f: "forest base C st" and Cn: "C < nextNodeIdx st"
    and dv: "(base - 1) dvd (?L - 1)"
    and room: "int (nextNodeIdx st) + (?L - 1) div (base - 1) \<le> int (length (nodes st))"
    by (simp_all add: loop_inv_def)
  from dv obtain q where q: "?L - 1 = (base - 1) * q" by (auto simp: dvd_def)
  have qpos: "1 \<le> q"
  proof (rule ccontr)
    assume "\<not> 1 \<le> q"
    then have "q \<le> 0" by simp
    then have "(base - 1) * q \<le> 0" using b by (simp add: mult_le_0_iff)
    with q more show False by simp
  qed
  have dq: "(?L - 1) div (base - 1) = q" using q b by simp
  have Lb: "base \<le> ?L"
  proof -
    have "(base - 1) * 1 \<le> (base - 1) * q" using qpos b by (intro mult_left_mono) simp_all
    with q show ?thesis by simp
  qed
  have pl: "nextNodeIdx st < length (nodes st)" using room dq qpos by simp
  from combine_ok [OF pl] obtain st' where c: "combine base st = Inr st'" by blast
  from combine_forest [OF f _ _ c] b
  have f': "forest base C st'" and nx: "nextNodeIdx st' = Suc (nextNodeIdx st)"
    and ln: "length (nodes st') = length (nodes st)"
    and pin: "nextNodeIdx st \<in> set (nodeHeap st')"
    and pop: "popped base st = min (nat base) (length (nodeHeap st))"
    and lh: "length (nodeHeap st') = Suc (length (nodeHeap st) - popped base st)"
    by simp_all
  have pop': "popped base st = nat base" using pop Lb by simp
  have L': "int (length (nodeHeap st')) - 1 = (base - 1) * (q - 1)"
  proof -
    have "int (length (nodeHeap st')) - 1 = ?L - base" using lh pop' Lb b by simp
    also have "\<dots> = (base - 1) * (q - 1)" using q by (simp add: algebra_simps)
    finally show ?thesis .
  qed
  have dv': "(base - 1) dvd (int (length (nodeHeap st')) - 1)" unfolding L' by simp
  have dq': "(int (length (nodeHeap st')) - 1) div (base - 1) = q - 1" unfolding L' using b by simp
  have room': "int (nextNodeIdx st') + (int (length (nodeHeap st')) - 1) div (base - 1)
      \<le> int (length (nodes st'))"
    unfolding dq' nx ln using room dq by simp
  have "loop_inv base C st'"
    unfolding loop_inv_def using f' Cn nx pin dv' room' by simp
  with c pop' pl ln nx show ?thesis by blast
qed

lemma main_loop_run:
  assumes b: "2 \<le> base" and inv: "loop_inv base C st" and R: "R st"
    and pres: "\<And>s s'. loop_inv base C s \<Longrightarrow> R s \<Longrightarrow> 1 < length (nodeHeap s) \<Longrightarrow>
        popped base s = nat base \<Longrightarrow> combine base s = Inr s' \<Longrightarrow> R s'"
  shows "\<exists>st'. main_loop base st = Inr st' \<and> loop_inv base C st' \<and> R st' \<and> length (nodeHeap st') = 1
     \<and> length (nodes st') = length (nodes st)
     \<and> nextNodeIdx st' = nextNodeIdx st + length (main_calls base st)
     \<and> (\<forall>(k, s) \<in> set (main_calls base st).
           k = base \<and> popped k s = nat base \<and> nextNodeIdx s < length (nodes s))"
  using inv R
proof (induction k \<equiv> "length (nodes st) - nextNodeIdx st" arbitrary: st rule: less_induct)
  case less
  note inv = less.prems(1) and R = less.prems(2)
  show ?case
  proof (cases "1 < length (nodeHeap st)")
    case False
    have "nextNodeIdx st - 1 \<in> set (nodeHeap st)" using inv by (simp add: loop_inv_def)
    then have "nodeHeap st \<noteq> []" by auto
    with False have "length (nodeHeap st) = 1" by (cases "nodeHeap st") simp_all
    moreover have "main_loop base st = Inr st" using False by (subst main_loop.simps) simp
    moreover have "main_calls base st = []" using False by (subst main_calls.simps) simp
    ultimately show ?thesis using inv R by simp
  next
    case True
    from loop_inv_step [OF b inv True] obtain st1 where c: "combine base st = Inr st1"
      and inv1: "loop_inv base C st1" and pop: "popped base st = nat base"
      and pl: "nextNodeIdx st < length (nodes st)" and ln: "length (nodes st1) = length (nodes st)"
      and nx: "nextNodeIdx st1 = Suc (nextNodeIdx st)" by blast
    have R1: "R st1" by (rule pres [OF inv R True pop c])
    have ml: "main_loop base st = main_loop base st1"
      using True c by (subst main_loop.simps) simp
    have mc: "main_calls base st = (base, st) # main_calls base st1"
      using True c by (subst main_calls.simps) simp
    have dec: "length (nodes st1) - nextNodeIdx st1 < length (nodes st) - nextNodeIdx st"
      using pl ln nx by simp
    from less.hyps [OF dec inv1 R1] obtain st' where r: "main_loop base st1 = Inr st'"
      and inv': "loop_inv base C st'" and R': "R st'" and one: "length (nodeHeap st') = 1"
      and ln': "length (nodes st') = length (nodes st1)"
      and nx': "nextNodeIdx st' = nextNodeIdx st1 + length (main_calls base st1)"
      and calls: "\<forall>(k, s) \<in> set (main_calls base st1).
           k = base \<and> popped k s = nat base \<and> nextNodeIdx s < length (nodes s)"
      by blast
    have "\<forall>(k, s) \<in> set (main_calls base st).
           k = base \<and> popped k s = nat base \<and> nextNodeIdx s < length (nodes s)"
      unfolding mc using calls pop pl by simp
    with r inv' R' one ln' nx' ln nx ml mc show ?thesis by simp
  qed
qed

lemma initial_count_eq:
  assumes "2 \<le> base" "2 \<le> C"
  shows "initial_count base C = 2 + (int C - 2) mod (base - 1)"
  using assms by (simp add: initial_count_def go_rem_nonneg)

lemma initial_count_bounds:
  assumes b: "2 \<le> base" and C: "2 \<le> C"
  shows "2 \<le> initial_count base C" and "initial_count base C \<le> base"
    and "initial_count base C \<le> int C"
proof -
  have m0: "0 \<le> (int C - 2) mod (base - 1)" using b by simp
  have m1: "(int C - 2) mod (base - 1) < base - 1" using b by simp
  have m2: "(int C - 2) mod (base - 1) \<le> int C - 2"
    using b C by (intro zmod_le_nonneg_dividend) simp
  show "2 \<le> initial_count base C" using m0 by (simp add: initial_count_eq [OF b C])
  show "initial_count base C \<le> base" using m1 by (simp add: initial_count_eq [OF b C])
  show "initial_count base C \<le> int C" using m2 by (simp add: initial_count_eq [OF b C])
qed

lemma build_run:
  assumes b: "2 \<le> base" and C: "2 \<le> length F"
    and R1: "\<And>st1. combine (initial_count base (length F)) (init_state base F) = Inr st1 \<Longrightarrow> R st1"
    and pres: "\<And>s s'. loop_inv base (length F) s \<Longrightarrow> R s \<Longrightarrow> 1 < length (nodeHeap s) \<Longrightarrow>
        popped base s = nat base \<Longrightarrow> combine base s = Inr s' \<Longrightarrow> R s'"
  shows "\<exists>st1 st. built base F st1 st \<and> R st"
proof -
  let ?C = "length F" and ?st0 = "init_state base F" and ?k = "initial_count base (length F)"
  have C1: "1 \<le> ?C" using C by simp
  note fl = init_state_fields [OF b C1]
  note kb = initial_count_bounds [OF b C]
  have f0: "forest base ?C ?st0" by (rule init_state_forest [OF b C1])
  have pl: "nextNodeIdx ?st0 < length (nodes ?st0)" by (simp add: fl num_iters_def)
  from combine_ok [OF pl] obtain st1 where c: "combine ?k ?st0 = Inr st1" by blast
  from combine_forest [OF f0 _ kb(2) c] kb(1)
  have f1: "forest base ?C st1" and nx: "nextNodeIdx st1 = Suc ?C"
    and ln: "length (nodes st1) = ?C + num_iters base ?C"
    and pin: "?C \<in> set (nodeHeap st1)"
    and pop: "popped ?k ?st0 = min (nat ?k) ?C"
    and lh: "length (nodeHeap st1) = Suc (?C - popped ?k ?st0)"
    by (simp_all add: fl)
  have pop': "popped ?k ?st0 = nat ?k" using pop kb(3) by simp
  define m where "m = (int ?C - 2) mod (base - 1)"
  have k: "?k = 2 + m" by (simp add: initial_count_eq [OF b C] m_def)
  have L: "int (length (nodeHeap st1)) - 1 = int ?C - ?k"
    using lh pop' kb by simp
  also have "\<dots> = (int ?C - 2) - m" by (simp add: k)
  also have "\<dots> = (base - 1) * ((int ?C - 2) div (base - 1))"
    unfolding m_def by (simp add: minus_mod_eq_mult_div)
  finally have L1: "int (length (nodeHeap st1)) - 1 = (base - 1) * ((int ?C - 2) div (base - 1))" .
  have dv: "(base - 1) dvd (int (length (nodeHeap st1)) - 1)" unfolding L1 by simp
  have dq: "(int (length (nodeHeap st1)) - 1) div (base - 1) = (int ?C - 2) div (base - 1)"
    unfolding L1 using b by simp
  have "(int ?C - 2) div (base - 1) \<le> (int ?C - 1) div (base - 1)"
    using b by (intro zdiv_mono1) simp_all
  also have "\<dots> = int ((?C - 1) div nat (base - 1))"
    using b C by (simp add: zdiv_int of_nat_diff)
  finally have "int (nextNodeIdx st1) + (int (length (nodeHeap st1)) - 1) div (base - 1)
     \<le> int (length (nodes st1))"
    unfolding dq nx ln num_iters_def by simp
  then have inv1: "loop_inv base ?C st1"
    unfolding loop_inv_def using f1 nx pin dv by simp
  have "\<exists>st'. main_loop base st1 = Inr st' \<and> loop_inv base ?C st' \<and> R st' \<and> length (nodeHeap st') = 1
     \<and> length (nodes st') = length (nodes st1)
     \<and> nextNodeIdx st' = nextNodeIdx st1 + length (main_calls base st1)
     \<and> (\<forall>(k, s) \<in> set (main_calls base st1).
           k = base \<and> popped k s = nat base \<and> nextNodeIdx s < length (nodes s))"
    by (rule main_loop_run [where R = R, OF b inv1 R1 [OF c]]) (rule pres; assumption)
  then obtain st where r: "main_loop base st1 = Inr st"
    and inv: "loop_inv base ?C st" and R: "R st" and one: "length (nodeHeap st) = 1"
    and ln': "length (nodes st) = length (nodes st1)"
    and nx': "nextNodeIdx st = nextNodeIdx st1 + length (main_calls base st1)"
    and calls: "\<forall>(k, s) \<in> set (main_calls base st1).
           k = base \<and> popped k s = nat base \<and> nextNodeIdx s < length (nodes s)"
    by blast
  have k0: "0 < initial_count base (length (nodeHeap ?st0))" using kb(1) by (simp add: fl)
  have bd: "build base F = Inr st"
    using k0 c r by (simp add: build_def Let_def fl)
  have cc: "combine_calls base F = (?k, ?st0) # main_calls base st1"
    using k0 c by (simp add: combine_calls_def Let_def fl)
  have le: "nextNodeIdx st \<le> length (nodes st)"
    using inv unfolding loop_inv_def forest_def linv_def by simp
  have "built base F st1 st"
    unfolding built_def using c bd r inv1 inv one ln ln' cc pop' nx nx' le calls by simp
  with R show ?thesis by blast
qed

subsection \<open>Paths to the root\<close>

lemma tree_facts:
  assumes "tree base C m r ns"
  shows "C \<le> m" and "m \<le> length ns" and "r < m"
    and "\<And>x. x < m \<Longrightarrow> (par ns x = - 1) = (x = r)"
    and "\<And>x. x < m \<Longrightarrow> x \<noteq> r \<Longrightarrow>
           int x < par ns x \<and> int C \<le> par ns x \<and> par ns x < int m \<and> 0 \<le> sib ns x \<and> sib ns x < base"
    and "\<And>x y. x < m \<Longrightarrow> y < m \<Longrightarrow> x \<noteq> r \<Longrightarrow> y \<noteq> r \<Longrightarrow>
           par ns x = par ns y \<Longrightarrow> sib ns x = sib ns y \<Longrightarrow> x = y"
    and "0 \<le> TotalHops (ns ! r)"
proof -
  from assms have Cp: "C \<le> m" and pl: "m \<le> length ns" and sh: "set [r] \<subseteq> {..<m}"
    and roots: "\<And>x. x < m \<Longrightarrow> (par ns x = - 1) = (x \<in> set [r])"
    and inner: "\<And>x. x < m \<Longrightarrow> x \<notin> set [r] \<Longrightarrow>
        int x < par ns x \<and> int C \<le> par ns x \<and> par ns x \<le> int m \<and> 0 \<le> sib ns x \<and> sib ns x < base"
    and cur: "\<And>x. x < m \<Longrightarrow> par ns x = int m \<Longrightarrow> sib ns x < int 0"
    and inj: "\<And>x y. x < m \<Longrightarrow> y < m \<Longrightarrow> x \<notin> set [r] \<Longrightarrow> y \<notin> set [r] \<Longrightarrow>
        par ns x = par ns y \<Longrightarrow> sib ns x = sib ns y \<Longrightarrow> x = y"
    and hops: "\<And>x. x < m \<Longrightarrow> 0 \<le> TotalHops (ns ! x)"
    unfolding tree_def linv_def by blast+
  show "C \<le> m" "m \<le> length ns" by fact+
  show rm: "r < m" using sh by simp
  show "\<And>x. x < m \<Longrightarrow> (par ns x = - 1) = (x = r)" using roots by simp
  show "\<And>x. x < m \<Longrightarrow> x \<noteq> r \<Longrightarrow>
           int x < par ns x \<and> int C \<le> par ns x \<and> par ns x < int m \<and> 0 \<le> sib ns x \<and> sib ns x < base"
  proof -
    fix x assume x: "x < m" "x \<noteq> r"
    then have i: "int x < par ns x \<and> int C \<le> par ns x \<and> par ns x \<le> int m \<and> 0 \<le> sib ns x \<and> sib ns x < base"
      using inner by simp
    have "par ns x \<noteq> int m" using cur [OF x(1)] i by auto
    with i show "int x < par ns x \<and> int C \<le> par ns x \<and> par ns x < int m \<and> 0 \<le> sib ns x \<and> sib ns x < base"
      by simp
  qed
  show "\<And>x y. x < m \<Longrightarrow> y < m \<Longrightarrow> x \<noteq> r \<Longrightarrow> y \<noteq> r \<Longrightarrow>
           par ns x = par ns y \<Longrightarrow> sib ns x = sib ns y \<Longrightarrow> x = y"
    using inj by simp
  show "0 \<le> TotalHops (ns ! r)" using hops rm by simp
qed

lemma up_path_root:
  assumes t: "tree base C m r ns"
  shows "up_path ns m r = []"
proof -
  have "par ns r = - 1" using tree_facts(3,4) [OF t] by simp
  then show ?thesis by (subst up_path.simps) simp
qed

lemma up_path_inner:
  assumes t: "tree base C m r ns" and x: "x < m" "x \<noteq> r"
  shows "up_path ns m x = sib ns x # up_path ns m (nat (par ns x))"
  using tree_facts(5) [OF t x] by (subst up_path.simps) simp

lemma tree_parent:
  assumes t: "tree base C m r ns" and x: "x < m" "x \<noteq> r"
  obtains p where "par ns x = int p" and "x < p" and "C \<le> p" and "p < m"
    and "0 \<le> sib ns x" and "sib ns x < base"
    and "up_path ns m x = sib ns x # up_path ns m p"
proof -
  note f = tree_facts(5) [OF t x]
  define p where "p = nat (par ns x)"
  have 1: "par ns x = int p" using f by (simp add: p_def)
  have 2: "x < p" "C \<le> p" "p < m" using f unfolding 1 by simp_all
  have 3: "up_path ns m x = sib ns x # up_path ns m p"
    using up_path_inner [OF t x] by (simp add: p_def)
  show thesis using that [OF 1 2 _ _ 3] f by simp
qed

lemma walk_up_path:
  assumes t: "tree base C m r ns" and x: "x < m"
  shows "walk ns (ns ! x) acc = Some (Inr (acc @ up_path ns m x))"
  using x
proof (induction k \<equiv> "m - x" arbitrary: x acc rule: less_induct)
  case less
  show ?case
  proof (cases "x = r")
    case True
    have "par ns r = - 1" using tree_facts(3,4) [OF t] by simp
    then have "walk ns (ns ! r) acc = Some (Inr acc)" by (subst walk.simps) simp
    then show ?thesis using True up_path_root [OF t] by simp
  next
    case False
    from tree_parent [OF t less.prems False] obtain p where p: "par ns x = int p"
      and xp: "x < p" and pm: "p < m" and u: "up_path ns m x = sib ns x # up_path ns m p"
      by blast
    have pl: "p < length ns" using pm tree_facts(2) [OF t] by simp
    have "walk ns (ns ! x) acc = walk ns (ns ! p) (acc @ [sib ns x])"
      using p pl by (subst walk.simps) simp
    also have "\<dots> = Some (Inr ((acc @ [sib ns x]) @ up_path ns m p))"
      using less.hyps [OF _ pm] xp less.prems by simp
    finally show ?thesis using u by simp
  qed
qed

lemma label_loop_up_path:
  assumes t: "tree base C m r ns"
  shows "\<forall>x \<in> set xs. x < m \<Longrightarrow>
     label_loop ns (map ((!) ns) xs) acc = Some (Inr (map (\<lambda>x. rev (up_path ns m x)) xs))"
proof (induction xs arbitrary: acc)
  case Nil
  then show ?case by simp
next
  case (Cons x xs)
  have x: "x < m" using Cons.prems by simp
  have w: "walk ns (ns ! x) acc = Some (Inr (acc @ up_path ns m x))"
    by (rule walk_up_path [OF t x])
  have rest: "label_loop ns (map ((!) ns) xs) (acc @ rev (up_path ns m x))
     = Some (Inr (map (\<lambda>x. rev (up_path ns m x)) xs))"
    using Cons.IH Cons.prems by simp
  show ?case using w rest by (simp add: Let_def)
qed

lemma up_path_symbols:
  assumes t: "tree base C m r ns" and x: "x < m"
  shows "\<forall>s \<in> set (up_path ns m x). 0 \<le> s \<and> s < base"
  using x
proof (induction k \<equiv> "m - x" arbitrary: x rule: less_induct)
  case less
  show ?case
  proof (cases "x = r")
    case True
    then show ?thesis using up_path_root [OF t] by simp
  next
    case False
    from tree_parent [OF t less.prems False] obtain p where
      xp: "x < p" and pm: "p < m" and s: "0 \<le> sib ns x" "sib ns x < base"
      and u: "up_path ns m x = sib ns x # up_path ns m p"
      by blast
    have "\<forall>s \<in> set (up_path ns m p). 0 \<le> s \<and> s < base"
      using less.hyps [OF _ pm] xp less.prems by simp
    then show ?thesis unfolding u using s by simp
  qed
qed

lemma up_path_nonempty:
  assumes t: "tree base C m r ns" and x: "x < m" "x \<noteq> r"
  shows "up_path ns m x \<noteq> []"
  using up_path_inner [OF t x] by simp

lemma up_path_inj:
  assumes t: "tree base C m r ns" and x: "x < m" and y: "y < m"
    and eq: "up_path ns m x = up_path ns m y"
  shows "x = y"
  using x y eq
proof (induction k \<equiv> "m - x" arbitrary: x y rule: less_induct)
  case less
  show ?case
  proof (cases "x = r")
    case True
    then have "up_path ns m y = []" using less.prems(3) up_path_root [OF t] by simp
    then have "y = r" using up_path_nonempty [OF t less.prems(2)] by blast
    with True show ?thesis by simp
  next
    case False
    have yr: "y \<noteq> r"
      using less.prems(3) up_path_root [OF t] up_path_nonempty [OF t less.prems(1) False] by auto
    from tree_parent [OF t less.prems(1) False] obtain p where p: "par ns x = int p"
      and xp: "x < p" and pm: "p < m" and ux: "up_path ns m x = sib ns x # up_path ns m p"
      by blast
    from tree_parent [OF t less.prems(2) yr] obtain q where q: "par ns y = int q"
      and qm: "q < m" and uy: "up_path ns m y = sib ns y # up_path ns m q"
      by blast
    from less.prems(3) ux uy
    have s: "sib ns x = sib ns y" and u: "up_path ns m p = up_path ns m q" by simp_all
    have "p = q" using less.hyps [OF _ pm qm u] xp less.prems(1) by simp
    then have "par ns x = par ns y" using p q by simp
    from tree_facts(6) [OF t less.prems(1,2) False yr this s] show ?thesis .
  qed
qed

lemma up_path_suffix:
  assumes t: "tree base C m r ns" and x: "x < m" and suf: "suffix ys (up_path ns m x)"
  shows "\<exists>a<m. up_path ns m a = ys \<and> (a = x \<or> C \<le> a)"
  using x suf
proof (induction k \<equiv> "m - x" arbitrary: x rule: less_induct)
  case less
  show ?case
  proof (cases "x = r")
    case True
    then have "ys = up_path ns m x" using less.prems(2) up_path_root [OF t] by simp
    then show ?thesis using less.prems(1) by blast
  next
    case False
    from tree_parent [OF t less.prems(1) False] obtain p where
      xp: "x < p" and Cp: "C \<le> p" and pm: "p < m"
      and u: "up_path ns m x = sib ns x # up_path ns m p"
      by blast
    from less.prems(2) u
    have "ys = up_path ns m x \<or> suffix ys (up_path ns m p)"
      by (auto simp: suffix_Cons)
    then show ?thesis
    proof
      assume "ys = up_path ns m x"
      then show ?thesis using less.prems(1) by blast
    next
      assume sf: "suffix ys (up_path ns m p)"
      have "m - p < m - x" using xp less.prems(1) by simp
      from less.hyps [OF this pm sf]
      obtain a where "a < m" "up_path ns m a = ys" "a = p \<or> C \<le> a" by blast
      then show ?thesis using Cp by blast
    qed
  qed
qed

lemma leaf_labels_prefix_free:
  assumes t: "tree base C m r ns" and x: "x < C" and y: "y < C" and xy: "x \<noteq> y"
  shows "\<not> prefix (rev (up_path ns m x)) (rev (up_path ns m y))"
proof
  assume "prefix (rev (up_path ns m x)) (rev (up_path ns m y))"
  then have suf: "suffix (up_path ns m x) (up_path ns m y)" by (simp add: suffix_to_prefix)
  have xm: "x < m" and ym: "y < m" using x y tree_facts(1) [OF t] by simp_all
  from up_path_suffix [OF t ym suf] obtain a where a: "a < m"
    and e: "up_path ns m a = up_path ns m x" and d: "a = y \<or> C \<le> a" by blast
  from up_path_inj [OF t a xm e] have "a = x" .
  with d x xy show False by simp
qed

lemma loop_inv_tree:
  assumes inv: "loop_inv base C st" and one: "length (nodeHeap st) = 1"
  shows "tree base C (nextNodeIdx st) (nextNodeIdx st - 1) (nodes st)"
    and "nodeHeap st = [nextNodeIdx st - 1]" and "C \<le> nextNodeIdx st - 1"
proof -
  from inv have f: "forest base C st" and Cn: "C < nextNodeIdx st"
    and pin: "nextNodeIdx st - 1 \<in> set (nodeHeap st)" by (simp_all add: loop_inv_def)
  from one obtain r where h: "nodeHeap st = [r]"
    by (cases "nodeHeap st") simp_all
  with pin have r: "r = nextNodeIdx st - 1" by simp
  show "nodeHeap st = [nextNodeIdx st - 1]" using h r by simp
  show "tree base C (nextNodeIdx st) (nextNodeIdx st - 1) (nodes st)"
    using f h r by (simp add: tree_def forest_def)
  show "C \<le> nextNodeIdx st - 1" using Cn by simp
qed

lemma take_as_map: "C \<le> length ns \<Longrightarrow> take C ns = map ((!) ns) [0..<C]"
  by (simp add: list_eq_iff_nth_eq)

lemma Label_run:
  assumes b: "2 \<le> base" and C: "2 \<le> length F"
    and R1: "\<And>st1. combine (initial_count base (length F)) (init_state base F) = Inr st1 \<Longrightarrow> R st1"
    and pres: "\<And>s s'. loop_inv base (length F) s \<Longrightarrow> R s \<Longrightarrow> 1 < length (nodeHeap s) \<Longrightarrow>
        popped base s = nat base \<Longrightarrow> combine base s = Inr s' \<Longrightarrow> R s'"
  shows "\<exists>st. labelled base F st \<and> R st"
proof -
  have "\<exists>st1 st. built base F st1 st \<and> R st"
    by (rule build_run [where R = R, OF b C]) (erule R1, (rule pres; assumption))
  then obtain st where bd: "build base F = Inr st"
    and inv: "loop_inv base (length F) st" and R: "R st" and one: "length (nodeHeap st) = 1"
    unfolding built_def by blast
  note t = loop_inv_tree [OF inv one]
  have len: "length F \<le> length (nodes st)"
    using tree_facts(1,2) [OF t(1)] by simp
  have hops: "\<not> TotalHops (nodes st ! (nextNodeIdx st - 1)) < 0"
    using tree_facts(7) [OF t(1)] by simp
  have all: "\<forall>x \<in> set [0..<length F]. x < nextNodeIdx st"
    using tree_facts(1) [OF t(1)] by simp
  obtain f1 f2 fs where F: "F = f1 # f2 # fs"
    using C by (cases F; cases "tl F") auto
  have "Label base F = label_loop (nodes st) (take (length F) (nodes st)) []"
    using b bd t(2) hops len unfolding Label_def F by simp
  also have "\<dots> = Some (Inr (map (\<lambda>x. rev (up_path (nodes st) (nextNodeIdx st) x)) [0..<length F]))"
    unfolding take_as_map [OF len] by (rule label_loop_up_path [OF t(1) all])
  finally have "labelled base F st" unfolding labelled_def using bd t by simp
  with R show ?thesis by blast
qed

subsection \<open>Frequencies and children under \<open>combine\<close>\<close>

lemma heap_Pop_mem:
  assumes "h \<noteq> []" and "heap_Pop ns h = (c, h')"
  shows "c \<in> set h" and "set h = insert c (set h')"
proof -
  from heap_Pop_props [OF assms] have ms: "mset h = add_mset c (mset h')" by simp
  show "set h = insert c (set h')" using ms by (metis set_mset_mset set_mset_add_mset_insert)
  then show "c \<in> set h" by simp
qed

lemma combine_loop_inv_rule:
  assumes inv: "linv base C p i (nodes st) (nodeHeap st)" and kb: "k \<le> base" and t0: "0 \<le> t"
    and ik: "int i \<le> k"
    and res: "combine_loop k p st i f t = (st', i', f', t')"
    and Q0: "Q st i f"
    and step: "\<And>s j g c h'. linv base C p j (nodes s) (nodeHeap s) \<Longrightarrow> Q s j g \<Longrightarrow> int j < k \<Longrightarrow>
        heap_Pop (nodes s) (nodeHeap s) = (c, h') \<Longrightarrow> c \<in> set (nodeHeap s) \<Longrightarrow>
        Q (pop_step p s j c h') (Suc j) (g + Freq (nodes s ! c))"
  shows "linv base C p i' (nodes st') (nodeHeap st') \<and> Q st' i' f'"
proof -
  define Q' where "Q' = (\<lambda>(s::state) j (g::go_int) (u::int). linv base C p j (nodes s) (nodeHeap s) \<and> Q s j g)"
  have Q0': "Q' st i f t" using inv Q0 by (simp add: Q'_def)
  have "Q' st' i' f' t' \<and> \<not> (int i' < k \<and> nodeHeap st' \<noteq> [])"
  proof (rule combine_loop_rule [where Q = Q', OF Q0' res])
    fix s j g u c h'
    assume q: "Q' s j g u" and jk: "int j < k" and ne: "nodeHeap s \<noteq> []"
      and pop: "heap_Pop (nodes s) (nodeHeap s) = (c, h')"
    from q have li: "linv base C p j (nodes s) (nodeHeap s)" and qq: "Q s j g" by (simp_all add: Q'_def)
    from linv_step [OF li ne pop] jk kb
    have 1: "linv base C p (Suc j) (nodes (pop_step p s j c h')) (nodeHeap (pop_step p s j c h'))"
      by (simp add: pop_step_def)
    have 2: "Q (pop_step p s j c h') (Suc j) (g + Freq (nodes s ! c))"
      by (rule step [OF li qq jk pop heap_Pop_mem(1) [OF ne pop]])
    from 1 2 show "Q' (pop_step p s j c h') (Suc j) (g + Freq (nodes s ! c)) (u + TotalHops (nodes s ! c))"
      by (simp add: Q'_def)
  qed
  then show ?thesis by (simp add: Q'_def)
qed

lemma combine_Inr_cases:
  assumes "combine k st = Inr st'"
  obtains st1 i f t where
    "combine_loop k (nextNodeIdx st) (st\<lparr>nextNodeIdx := nextNodeIdx st + 1\<rparr>) 0 0 0 = (st1, i, f, t)"
    and "nextNodeIdx st < length (nodes st1)"
    and "st' = push_parent st1 (nextNodeIdx st)
            \<lparr>ParentIndex = - 1, SiblingIndex = - 1, TotalHops = t + k, Freq = f\<rparr>"
proof -
  obtain st1 i f t where cl:
    "combine_loop k (nextNodeIdx st) (st\<lparr>nextNodeIdx := nextNodeIdx st + 1\<rparr>) 0 0 0 = (st1, i, f, t)"
    using prod_cases4 by blast
  from assms have pl: "nextNodeIdx st < length (nodes st1)"
    unfolding combine_def Let_def cl by (simp split: if_splits)
  with assms have "st' = push_parent st1 (nextNodeIdx st)
            \<lparr>ParentIndex = - 1, SiblingIndex = - 1, TotalHops = t + k, Freq = f\<rparr>"
    unfolding combine_def Let_def cl push_parent_def by simp
  with cl pl show thesis by (rule that)
qed

lemma push_parent_fields:
  "nodes (push_parent st1 p nd) = (nodes st1)[p := nd]"
  "nextNodeIdx (push_parent st1 p nd) = nextNodeIdx st1"
  "mset (nodeHeap (push_parent st1 p nd)) = add_mset p (mset (nodeHeap st1))"
  "length (nodeHeap (push_parent st1 p nd)) = Suc (length (nodeHeap st1))"
  by (simp_all add: push_parent_def heap_Push_props)

lemma pop_step_fields:
  "nodes (pop_step p s j c h') = (nodes s)[c := (nodes s ! c)\<lparr>ParentIndex := int p, SiblingIndex := int j\<rparr>]"
  "nodeHeap (pop_step p s j c h') = h'"
  "nextNodeIdx (pop_step p s j c h') = nextNodeIdx s"
  by (simp_all add: pop_step_def)

lemma pop_step_Freq: "Freq (nodes (pop_step p s j c h') ! x) = Freq (nodes s ! x)"
proof (cases "c < length (nodes s)")
  case True
  then show ?thesis by (cases "x = c") (simp_all add: pop_step_def)
next
  case False
  then show ?thesis by (simp add: pop_step_def list_update_beyond)
qed

lemma combine_Freq:
  assumes c: "combine k st = Inr st'" and x: "x \<noteq> nextNodeIdx st"
  shows "Freq (nodes st' ! x) = Freq (nodes st ! x)"
  using c
proof (rule combine_Inr_cases)
  fix st1 i f t
  assume cl: "combine_loop k (nextNodeIdx st) (st\<lparr>nextNodeIdx := nextNodeIdx st + 1\<rparr>) 0 0 0 = (st1, i, f, t)"
    and st': "st' = push_parent st1 (nextNodeIdx st)
            \<lparr>ParentIndex = - 1, SiblingIndex = - 1, TotalHops = t + k, Freq = f\<rparr>"
  define Q where "Q = (\<lambda>(s::state) (j::nat) (g::go_int) (u::int). \<forall>x. Freq (nodes s ! x) = Freq (nodes st ! x))"
  have Q0: "Q (st\<lparr>nextNodeIdx := nextNodeIdx st + 1\<rparr>) 0 0 0" by (simp add: Q_def)
  have "Q st1 i f t \<and> \<not> (int i < k \<and> nodeHeap st1 \<noteq> [])"
  proof (rule combine_loop_rule [where Q = Q, OF Q0 cl])
    fix s j g u c h'
    assume "Q s j g u"
    then show "Q (pop_step (nextNodeIdx st) s j c h') (Suc j) (g + Freq (nodes s ! c)) (u + TotalHops (nodes s ! c))"
      by (simp add: Q_def pop_step_Freq)
  qed
  then have 1: "Freq (nodes st1 ! x) = Freq (nodes st ! x)" by (simp add: Q_def)
  have "nodes st' ! x = nodes st1 ! x" unfolding st' using x by (simp add: push_parent_fields)
  with 1 show ?thesis by simp
qed

lemma children_kids: "set (children ns m p) = kids ns m p" "length (children ns m p) = card (kids ns m p)"
proof -
  show 1: "set (children ns m p) = kids ns m p" by (auto simp: children_def kids_def)
  have "distinct (children ns m p)" by (simp add: children_def)
  from distinct_card [OF this] 1 show "length (children ns m p) = card (kids ns m p)" by simp
qed

lemma finite_kids [simp]: "finite (kids ns m p)"
  by (simp add: kids_def)

lemma combine_kids:
  assumes f: "forest base C st" and k0: "0 \<le> k" and kb: "k \<le> base" and c: "combine k st = Inr st'"
  shows "(\<forall>p<nextNodeIdx st. kids (nodes st') (Suc (nextNodeIdx st)) p = kids (nodes st) (nextNodeIdx st) p)
     \<and> card (kids (nodes st') (Suc (nextNodeIdx st)) (nextNodeIdx st)) = popped k st"
  using c
proof (rule combine_Inr_cases)
  let ?n = "nextNodeIdx st"
  let ?st0 = "st\<lparr>nextNodeIdx := ?n + 1\<rparr>"
  fix st1 i g t
  assume cl: "combine_loop k ?n ?st0 0 0 0 = (st1, i, g, t)"
    and pl: "?n < length (nodes st1)"
    and st': "st' = push_parent st1 ?n \<lparr>ParentIndex = - 1, SiblingIndex = - 1, TotalHops = t + k, Freq = g\<rparr>"
  define Q where "Q = (\<lambda>(s::state) (j::nat) (g::go_int).
     (\<forall>p<?n. kids (nodes s) ?n p = kids (nodes st) ?n p) \<and> card (kids (nodes s) ?n ?n) = j)"
  have inv0: "linv base C ?n 0 (nodes ?st0) (nodeHeap ?st0)" using f by (simp add: forest_def)
  have empty: "kids (nodes st) ?n ?n = {}"
  proof -
    have False if "x < ?n" "par (nodes st) x = int ?n" for x
    proof -
      from inv0 that have s: "sib (nodes st) x < 0" unfolding linv_def by simp
      from inv0 that(1) have "(par (nodes st) x = - 1) = (x \<in> set (nodeHeap st))"
        unfolding linv_def by simp
      with that(2) have "x \<notin> set (nodeHeap st)" by auto
      with inv0 that(1) have "0 \<le> sib (nodes st) x" unfolding linv_def by simp
      with s show False by simp
    qed
    then show ?thesis by (auto simp: kids_def)
  qed
  have Q0: "Q ?st0 0 0" by (simp add: Q_def empty)
  have "linv base C ?n i (nodes st1) (nodeHeap st1) \<and> Q st1 i g"
  proof (rule combine_loop_inv_rule [where Q = Q, OF inv0 kb _ _ cl Q0])
    show "(0::int) \<le> 0" by simp
    show "int 0 \<le> k" using k0 by simp
  next
    fix s j g c h'
    assume li: "linv base C ?n j (nodes s) (nodeHeap s)" and q: "Q s j g"
      and cin: "c \<in> set (nodeHeap s)"
    let ?ns = "nodes (pop_step ?n s j c h')"
    from li cin have cn: "c < ?n" and nl: "?n \<le> length (nodes s)" unfolding linv_def by auto
    with li cin have pc: "par (nodes s) c = - 1" unfolding linv_def by simp
    have cl': "c < length (nodes s)" using cn nl by simp
    have at_c: "par ?ns c = int ?n" using cl' by (simp add: pop_step_fields)
    have other: "\<And>x. x \<noteq> c \<Longrightarrow> par ?ns x = par (nodes s) x" by (simp add: pop_step_fields)
    have 1: "kids ?ns ?n p = kids (nodes s) ?n p" if "p < ?n" for p
    proof -
      have "(par ?ns x = int p) = (par (nodes s) x = int p)" for x
        using at_c pc other [of x] that by (cases "x = c") simp_all
      then show ?thesis by (simp add: kids_def)
    qed
    have 2: "kids ?ns ?n ?n = insert c (kids (nodes s) ?n ?n)"
    proof -
      have "(x < ?n \<and> par ?ns x = int ?n) = (x = c \<or> (x < ?n \<and> par (nodes s) x = int ?n))" for x
        using at_c cn other [of x] by (cases "x = c") simp_all
      then show ?thesis by (auto simp: kids_def)
    qed
    have 3: "c \<notin> kids (nodes s) ?n ?n" using pc by (simp add: kids_def)
    have "card (kids ?ns ?n ?n) = Suc j"
      unfolding 2 using 3 q by (simp add: Q_def)
    with 1 q show "Q (pop_step ?n s j c h') (Suc j) (g + Freq (nodes s ! c))"
      by (simp add: Q_def)
  qed
  then have q1: "\<And>p. p < ?n \<Longrightarrow> kids (nodes st1) ?n p = kids (nodes st) ?n p"
    and q2: "card (kids (nodes st1) ?n ?n) = i" by (simp_all add: Q_def)
  have ext: "kids (nodes st') (Suc ?n) p = kids (nodes st1) ?n p" for p
  proof -
    have "(x < Suc ?n \<and> par (nodes st') x = int p) = (x < ?n \<and> par (nodes st1) x = int p)" for x
      unfolding st' push_parent_fields using pl by (cases "x = ?n") auto
    then show ?thesis by (simp add: kids_def)
  qed
  have pop: "popped k st = i" unfolding popped_def cl by simp
  show ?thesis using ext q1 q2 pop by simp
qed

lemma kids_inv_first:
  assumes b: "2 \<le> base" and C: "2 \<le> length F"
    and c: "combine (initial_count base (length F)) (init_state base F) = Inr st1"
  shows "kids_inv base (length F) st1"
proof -
  have C1: "1 \<le> length F" using C by simp
  note fl = init_state_fields [OF b C1]
  note kb = initial_count_bounds [OF b C]
  have f0: "forest base (length F) (init_state base F)" by (rule init_state_forest [OF b C1])
  from combine_forest [OF f0 _ kb(2) c] kb
  have nx: "nextNodeIdx st1 = Suc (length F)"
    and pop: "popped (initial_count base (length F)) (init_state base F) = nat (initial_count base (length F))"
    by (simp_all add: fl)
  from combine_kids [OF f0 _ kb(2) c] kb(1) pop
  have "card (kids (nodes st1) (Suc (length F)) (length F)) = nat (initial_count base (length F))"
    by (simp add: fl)
  then show ?thesis unfolding kids_inv_def nx by (auto simp: le_less_Suc_eq)
qed

lemma kids_inv_step:
  assumes b: "2 \<le> base" and inv: "loop_inv base C s" and K: "kids_inv base C s"
    and pop: "popped base s = nat base" and c: "combine base s = Inr s'"
  shows "kids_inv base C s'"
proof -
  from inv have f: "forest base C s" and Cn: "C < nextNodeIdx s" by (simp_all add: loop_inv_def)
  from combine_forest [OF f _ _ c] b have nx: "nextNodeIdx s' = Suc (nextNodeIdx s)" by simp
  from combine_kids [OF f _ _ c] b pop
  have old: "\<And>p. p < nextNodeIdx s \<Longrightarrow> kids (nodes s') (Suc (nextNodeIdx s)) p = kids (nodes s) (nextNodeIdx s) p"
    and new: "card (kids (nodes s') (Suc (nextNodeIdx s)) (nextNodeIdx s)) = nat base"
    by simp_all
  show ?thesis
    unfolding kids_inv_def nx
  proof (intro allI impI)
    fix p assume p: "C \<le> p \<and> p < Suc (nextNodeIdx s)"
    show "card (kids (nodes s') (Suc (nextNodeIdx s)) p) = (if p = C then nat (initial_count base C) else nat base)"
    proof (cases "p = nextNodeIdx s")
      case True
      then show ?thesis using new Cn by simp
    next
      case False
      with p have lt: "p < nextNodeIdx s" by simp
      from old [OF lt] K p lt show ?thesis by (simp add: kids_inv_def)
    qed
  qed
qed

subsection \<open>The heap operations keep the heap order\<close>

lemma Less_key: "Less ns h i j \<longleftrightarrow> key ns h i < key ns h j"
  by (simp add: Less_def key_def wt_def)

lemma key_Swap:
  assumes "i < length h" "j < length h"
  shows "key ns (Swap h i j) c = (if c = i then key ns h j else if c = j then key ns h i else key ns h c)"
  using assms by (simp add: key_def Swap_def nth_list_update)

lemma pa_cases: "0 < c \<Longrightarrow> pa c = i \<Longrightarrow> c = 2 * i + 1 \<or> c = 2 * i + 2"
  unfolding pa_def by arith

lemma pa_less: "0 < c \<Longrightarrow> pa c < c"
  unfolding pa_def by arith

lemma pa_kids [simp]: "pa (2 * i + 1) = i" "pa (2 * i + 2) = i" "pa (Suc (2 * i)) = i"
  "pa (Suc (Suc (2 * i))) = i" "pa 0 = 0"
  unfolding pa_def by simp_all

lemma pa_half: "0 < c \<Longrightarrow> c < n \<Longrightarrow> pa c < n div 2"
  unfolding pa_def by arith

lemma down_inv_exit:
  assumes inv: "down_inv ns h lo i n"
    and kids: "\<And>c. 0 < c \<Longrightarrow> c < n \<Longrightarrow> pa c = i \<Longrightarrow> key ns h i \<le> key ns h c"
  shows "heap_from ns h lo n"
  unfolding heap_from_def
proof (intro allI impI)
  fix c assume c: "0 < c \<and> c < n \<and> lo \<le> pa c"
  show "key ns h (pa c) \<le> key ns h c"
  proof (cases "pa c = i")
    case True
    with kids [of c] c show ?thesis by simp
  next
    case False
    with inv c show ?thesis unfolding down_inv_def by blast
  qed
qed

lemma down_inv_step:
  assumes inv: "down_inv ns h lo i n" and jn: "j < n" and pj: "pa j = i" and j0: "0 < j"
    and lt: "key ns h j < key ns h i"
    and least: "\<And>c. 0 < c \<Longrightarrow> c < n \<Longrightarrow> pa c = i \<Longrightarrow> key ns h j \<le> key ns h c"
  shows "down_inv ns (Swap h i j) lo j n"
proof -
  from inv have lo: "lo \<le> i" and nl: "n \<le> length h"
    and e1: "\<And>c. 0 < c \<Longrightarrow> c < n \<Longrightarrow> lo \<le> pa c \<Longrightarrow> pa c \<noteq> i \<Longrightarrow> key ns h (pa c) \<le> key ns h c"
    and e2: "\<And>c. 0 < c \<Longrightarrow> c < n \<Longrightarrow> pa c = i \<Longrightarrow> 0 < i \<Longrightarrow> lo \<le> pa i \<Longrightarrow> key ns h (pa i) \<le> key ns h c"
    unfolding down_inv_def by blast+
  have ij: "i < j" using pa_less [OF j0] pj by simp
  have il: "i < length h" and jl: "j < length h" using ij jn nl by simp_all
  note ks = key_Swap [OF il jl, of ns]
  have a: "lo \<le> j" using lo ij by simp
  have b: "key ns (Swap h i j) (pa c) \<le> key ns (Swap h i j) c"
    if c: "0 < c" "c < n" "lo \<le> pa c" "pa c \<noteq> j" for c
  proof (cases "pa c = i")
    case True
    then have ci: "c \<noteq> i" using pa_less [OF c(1)] by auto
    show ?thesis
    proof (cases "c = j")
      case True
      with \<open>pa c = i\<close> lt ij show ?thesis by (simp add: ks)
    next
      case False
      with True ci least [OF c(1,2) True] ij show ?thesis by (simp add: ks)
    qed
  next
    case False
    then have cj: "c \<noteq> j" using pj by auto
    show ?thesis
    proof (cases "c = i")
      case True
      then have i0: "0 < i" using c(1) by simp
      from e2 [OF j0 jn pj i0] c(3) True have "key ns h (pa i) \<le> key ns h j" by simp
      with True False c(4) show ?thesis by (simp add: ks)
    next
      case ci: False
      from e1 [OF c(1,2,3) False] False c(4) ci cj show ?thesis by (simp add: ks)
    qed
  qed
  have d: "key ns (Swap h i j) (pa j) \<le> key ns (Swap h i j) c"
    if c: "0 < c" "c < n" "pa c = j" for c
  proof -
    have jc: "j < c" using pa_less [OF c(1)] c(3) by simp
    have "pa c \<noteq> i" using c(3) ij by simp
    from e1 [OF c(1,2) _ this] a c(3) have "key ns h j \<le> key ns h c" by simp
    with jc ij pj show ?thesis by (simp add: ks)
  qed
  show ?thesis
    unfolding down_inv_def using a nl b d by simp
qed

lemma down_eq:
  assumes "j1 = 2 * i + 1" and "j = (if j1 + 1 < n \<and> Less ns h (j1 + 1) j1 then j1 + 1 else j1)"
  shows "down ns h i n = (if n \<le> j1 then h else if Less ns h j i then down ns (Swap h i j) j n else h)"
  unfolding assms by (subst down.simps) (simp add: Let_def)

lemma down_heap:
  assumes "down_inv ns h lo i n"
  shows "heap_from ns (down ns h i n) lo n"
  using assms
proof (induction k \<equiv> "n - i" arbitrary: h i rule: less_induct)
  case less
  note inv = less.prems
  define j1 where "j1 = 2 * i + 1"
  define j where "j = (if j1 + 1 < n \<and> Less ns h (j1 + 1) j1 then j1 + 1 else j1)"
  show ?case
  proof (cases "n \<le> j1")
    case True
    have eq: "down ns h i n = h"
      using True by (simp add: down_eq [OF j1_def j_def])
    have "heap_from ns h lo n"
    proof (rule down_inv_exit [OF inv])
      fix c assume c: "0 < c" "c < n" "pa c = i"
      from pa_cases [OF c(1,3)] c(2) True have False unfolding j1_def by arith
      then show "key ns h i \<le> key ns h c" ..
    qed
    then show ?thesis by (simp add: eq)
  next
    case False
    then have j1n: "j1 < n" by simp
    have jn: "j < n" using j1n by (simp add: j_def)
    have j0: "0 < j" by (simp add: j_def j1_def)
    have pj: "pa j = i" by (simp add: j_def j1_def)
    have least: "key ns h j \<le> key ns h c" if c: "0 < c" "c < n" "pa c = i" for c
    proof -
      from pa_cases [OF c(1,3)] have "c = j1 \<or> c = j1 + 1" by (simp add: j1_def)
      then show ?thesis using c(2) by (auto simp: j_def Less_key)
    qed
    show ?thesis
    proof (cases "Less ns h j i")
      case nl: False
      have eq: "down ns h i n = h"
        using False nl by (simp add: down_eq [OF j1_def j_def])
      have "heap_from ns h lo n"
      proof (rule down_inv_exit [OF inv])
        fix c assume c: "0 < c" "c < n" "pa c = i"
        from least [OF c] nl show "key ns h i \<le> key ns h c" by (simp add: Less_key)
      qed
      then show ?thesis by (simp add: eq)
    next
      case True
      have eq: "down ns h i n = down ns (Swap h i j) j n"
        using False True by (simp add: down_eq [OF j1_def j_def])
      have lt: "key ns h j < key ns h i" using True by (simp add: Less_key)
      have inv': "down_inv ns (Swap h i j) lo j n"
        by (rule down_inv_step [OF inv jn pj j0 lt least])
      have "n - j < n - i" using jn pa_less [OF j0] pj by simp
      from less.hyps [OF this inv'] show ?thesis by (simp add: eq)
    qed
  qed
qed

lemma up_inv_exit:
  assumes inv: "up_inv ns h j n" and ok: "0 < j \<Longrightarrow> key ns h (pa j) \<le> key ns h j"
  shows "heap_from ns h 0 n"
  unfolding heap_from_def
proof (intro allI impI)
  fix c assume c: "0 < c \<and> c < n \<and> 0 \<le> pa c"
  show "key ns h (pa c) \<le> key ns h c"
  proof (cases "c = j")
    case True
    with ok c show ?thesis by simp
  next
    case False
    with inv c show ?thesis unfolding up_inv_def by blast
  qed
qed

lemma up_inv_step:
  assumes inv: "up_inv ns h j n" and j0: "0 < j" and i: "i = pa j"
    and lt: "key ns h j < key ns h i"
  shows "up_inv ns (Swap h i j) i n"
proof -
  from inv have jn: "j < n" and nl: "n \<le> length h"
    and e1: "\<And>c. 0 < c \<Longrightarrow> c < n \<Longrightarrow> c \<noteq> j \<Longrightarrow> key ns h (pa c) \<le> key ns h c"
    and e2: "\<And>c. 0 < c \<Longrightarrow> c < n \<Longrightarrow> pa c = j \<Longrightarrow> key ns h i \<le> key ns h c"
    unfolding up_inv_def i using j0 by blast+
  have ij: "i < j" unfolding i by (rule pa_less [OF j0])
  have il: "i < length h" and jl: "j < length h" using ij jn nl by simp_all
  note ks = key_Swap [OF il jl, of ns]
  have b: "key ns (Swap h i j) (pa c) \<le> key ns (Swap h i j) c"
    if c: "0 < c" "c < n" "c \<noteq> i" for c
  proof (cases "c = j")
    case True
    have "pa c = i" using True i by simp
    with True lt ij show ?thesis by (simp add: ks)
  next
    case cj: False
    have pc: "pa c \<noteq> c" using pa_less [OF c(1)] by simp
    show ?thesis
    proof (cases "pa c = j")
      case True
      from e2 [OF c(1,2) True] True cj c(3) ij show ?thesis by (simp add: ks)
    next
      case pj: False
      show ?thesis
      proof (cases "pa c = i")
        case True
        from e1 [OF c(1,2) cj] True lt cj c(3) ij show ?thesis by (simp add: ks)
      next
        case False
        from e1 [OF c(1,2) cj] False pj cj c(3) show ?thesis by (simp add: ks)
      qed
    qed
  qed
  have d: "key ns (Swap h i j) (pa i) \<le> key ns (Swap h i j) c"
    if c: "0 < c" "c < n" "pa c = i" "0 < i" for c
  proof -
    have gi: "pa i < i" by (rule pa_less [OF c(4)])
    have "i < n" "i \<noteq> j" using ij jn by simp_all
    from e1 [OF c(4) this] have g: "key ns h (pa i) \<le> key ns h i" .
    have ci: "c \<noteq> i" using pa_less [OF c(1)] c(3) by simp
    show ?thesis
    proof (cases "c = j")
      case True
      with g gi ij show ?thesis by (simp add: ks)
    next
      case False
      from e1 [OF c(1,2) False] c(3) g False ci gi ij show ?thesis by (simp add: ks)
    qed
  qed
  have "i < n" using ij jn by simp
  then show ?thesis
    unfolding up_inv_def using nl b d by simp
qed

lemma up_heap:
  assumes "up_inv ns h j n"
  shows "heap_from ns (up ns h j) 0 n"
  using assms
proof (induction j arbitrary: h rule: less_induct)
  case (less j)
  note inv = less.prems
  show ?case
  proof (cases "pa j = j \<or> \<not> Less ns h j (pa j)")
    case True
    have eq: "up ns h j = h" using True by (subst up.simps) (simp add: Let_def pa_def)
    have "heap_from ns h 0 n"
    proof (rule up_inv_exit [OF inv])
      assume "0 < j"
      then have "pa j \<noteq> j" using pa_less [of j] by simp
      with True show "key ns h (pa j) \<le> key ns h j" by (simp add: Less_key)
    qed
    then show ?thesis by (simp add: eq)
  next
    case False
    then have j0: "0 < j" by (cases j) simp_all
    have lt: "key ns h j < key ns h (pa j)" using False by (simp add: Less_key)
    have eq: "up ns h j = up ns (Swap h (pa j) j) (pa j)"
      using False by (subst up.simps) (simp add: Let_def pa_def)
    from less.IH [OF pa_less [OF j0] up_inv_step [OF inv j0 refl lt]]
    show ?thesis by (simp add: eq)
  qed
qed

lemma heap_from_cong:
  assumes "\<And>i. i < n \<Longrightarrow> key ns' h' i = key ns h i"
  shows "heap_from ns' h' lo n = heap_from ns h lo n"
proof -
  have "key ns' h' (pa c) = key ns h (pa c) \<and> key ns' h' c = key ns h c" if "0 < c" "c < n" for c
    using assms [of c] assms [of "pa c"] pa_less [OF that(1)] that(2) by simp
  then show ?thesis unfolding heap_from_def by auto
qed

lemma is_heap_cong:
  assumes "\<And>x. x \<in> set h \<Longrightarrow> wt ns' x = wt ns x"
  shows "is_heap ns' h = is_heap ns h"
  unfolding is_heap_def using assms by (intro heap_from_cong) (simp add: key_def)

lemma init_loop_heap:
  assumes "heap_from ns h k n" and "n = length h"
  shows "heap_from ns (init_loop ns h k n) 0 n"
  using assms
proof (induction k arbitrary: h)
  case 0
  then show ?case by simp
next
  case (Suc i)
  have "down_inv ns h i i n"
    unfolding down_inv_def
  proof (intro conjI allI impI)
    show "i \<le> i" by simp
    show "n \<le> length h" using Suc.prems(2) by simp
  next
    fix c assume c: "0 < c \<and> c < n \<and> i \<le> pa c \<and> pa c \<noteq> i"
    then have "Suc i \<le> pa c" by simp
    with Suc.prems(1) c show "key ns h (pa c) \<le> key ns h c" unfolding heap_from_def by blast
  next
    fix c assume c: "0 < c \<and> c < n \<and> pa c = i \<and> 0 < i \<and> i \<le> pa i"
    then have False using pa_less [of i] by simp
    then show "key ns h (pa i) \<le> key ns h c" ..
  qed
  from down_heap [OF this] have 1: "heap_from ns (down ns h i n) i n" .
  have 2: "n = length (down ns h i n)" using down_props [of n h ns i] Suc.prems(2) by simp
  from Suc.IH [OF 1 2] show ?case by simp
qed

lemma heap_Init_heap: "is_heap ns (heap_Init ns h)"
proof -
  have "heap_from ns h (length h div 2) (length h)"
    unfolding heap_from_def
  proof (intro allI impI)
    fix c assume c: "0 < c \<and> c < length h \<and> length h div 2 \<le> pa c"
    with pa_half [of c "length h"] have False by simp
    then show "key ns h (pa c) \<le> key ns h c" ..
  qed
  from init_loop_heap [OF this refl] show ?thesis
    by (simp add: is_heap_def heap_Init_def Let_def heap_Init_props init_loop_props)
qed

lemma heap_Push_heap:
  assumes "is_heap ns h"
  shows "is_heap ns (heap_Push ns h x)"
proof -
  let ?n = "length h"
  have k: "key ns (h @ [x]) c = key ns h c" if "c < ?n" for c
    using that by (simp add: key_def nth_append)
  have "up_inv ns (h @ [x]) ?n (Suc ?n)"
    unfolding up_inv_def
  proof (intro conjI allI impI)
    show "?n < Suc ?n" "Suc ?n \<le> length (h @ [x])" by simp_all
  next
    fix c assume c: "0 < c \<and> c < Suc ?n \<and> c \<noteq> ?n"
    then have cn: "c < ?n" by simp
    then have pn: "pa c < ?n" using pa_less [of c] c by simp
    from assms c cn have "key ns h (pa c) \<le> key ns h c"
      unfolding is_heap_def heap_from_def by simp
    then show "key ns (h @ [x]) (pa c) \<le> key ns (h @ [x]) c" by (simp add: k cn pn)
  next
    fix c assume c: "0 < c \<and> c < Suc ?n \<and> pa c = ?n \<and> 0 < ?n"
    then have False using pa_less [of c] by simp
    then show "key ns (h @ [x]) (pa ?n) \<le> key ns (h @ [x]) c" ..
  qed
  from up_heap [OF this] show ?thesis
    by (simp add: is_heap_def heap_Push_def Let_def up_props)
qed

lemma heap_root_least:
  assumes "is_heap ns h" and "i < length h"
  shows "key ns h 0 \<le> key ns h i"
  using assms(2)
proof (induction i rule: less_induct)
  case (less i)
  show ?case
  proof (cases "i = 0")
    case True then show ?thesis by simp
  next
    case False
    then have i0: "0 < i" by simp
    have "key ns h (pa i) \<le> key ns h i"
      using assms(1) i0 less.prems unfolding is_heap_def heap_from_def by simp
    moreover have "key ns h 0 \<le> key ns h (pa i)"
      using less.IH [OF pa_less [OF i0]] less.prems pa_less [OF i0] by simp
    ultimately show ?thesis by simp
  qed
qed

lemma heap_Pop_heap:
  assumes hp: "is_heap ns h" and ne: "h \<noteq> []" and pop: "heap_Pop ns h = (c, h')"
  shows "is_heap ns h'" and "\<forall>x \<in> set h. wt ns c \<le> wt ns x"
proof -
  define n where "n = length h - 1"
  define h1 where "h1 = Swap h 0 n"
  define h2 where "h2 = down ns h1 0 n"
  have nl: "n < length h" using ne by (simp add: n_def)
  have c: "c = h2 ! n" and h': "h' = take n h2"
    using pop by (simp_all add: heap_Pop_def Let_def n_def h1_def h2_def)
  have l0: "0 < length h" using ne by simp
  have k1: "key ns h1 i = key ns h i" if "0 < i" "i < n" for i
    using that by (simp add: h1_def key_Swap [OF l0 nl])
  have "down_inv ns h1 0 0 n"
    unfolding down_inv_def
  proof (intro conjI allI impI)
    show "(0::nat) \<le> 0" by simp
    show "n \<le> length h1" using nl by (simp add: h1_def)
  next
    fix c assume c: "0 < c \<and> c < n \<and> 0 \<le> pa c \<and> pa c \<noteq> 0"
    then have p: "0 < pa c" "pa c < n" using pa_less [of c] by simp_all
    from hp c nl have "key ns h (pa c) \<le> key ns h c"
      unfolding is_heap_def heap_from_def by simp
    then show "key ns h1 (pa c) \<le> key ns h1 c" using k1 [OF p] k1 [of c] c by simp
  next
    fix c assume "0 < c \<and> c < n \<and> pa c = 0 \<and> (0::nat) < 0 \<and> 0 \<le> pa 0"
    then show "key ns h1 (pa 0) \<le> key ns h1 c" by simp
  qed
  from down_heap [OF this] have hf: "heap_from ns h2 0 n" by (simp add: h2_def)
  have dp: "length h2 = length h" "\<forall>k. n \<le> k \<longrightarrow> h2 ! k = h1 ! k"
    using down_props [of n h1 ns 0] nl by (simp_all add: h2_def h1_def)
  have "heap_from ns h' 0 n = heap_from ns h2 0 n"
    by (rule heap_from_cong) (simp add: key_def h')
  with hf dp(1) nl show "is_heap ns h'" by (simp add: is_heap_def h')
  have "c = h ! 0" using dp(2) nl unfolding c h1_def Swap_def
    by (cases "n = 0") (simp_all add: nth_list_update)
  moreover have "wt ns (h ! 0) \<le> wt ns x" if "x \<in> set h" for x
  proof -
    from that obtain i where "i < length h" "x = h ! i" by (auto simp: in_set_conv_nth)
    with heap_root_least [OF hp this(1)] show ?thesis by (simp add: key_def)
  qed
  ultimately show "\<forall>x \<in> set h. wt ns c \<le> wt ns x" by simp
qed

subsection \<open>Weights: who is popped first is no heavier\<close>

lemma winvD:
  assumes "winv C T p g ns h"
  shows "is_heap ns h"
    and "\<bar>g\<bar> + habs ns h \<le> T"
    and "\<And>x y. x < p \<Longrightarrow> x \<notin> set h \<Longrightarrow> y \<in> set h \<Longrightarrow> born C ns y x \<Longrightarrow> wt ns x \<le> wt ns y"
    and "\<And>x y. x < p \<Longrightarrow> y < p \<Longrightarrow> x \<notin> set h \<Longrightarrow> y \<notin> set h \<Longrightarrow> before ns x y \<Longrightarrow> born C ns y x
          \<Longrightarrow> wt ns x \<le> wt ns y"
    and "\<And>q. C \<le> q \<Longrightarrow> q < p \<Longrightarrow> wt ns q = sum (wt ns) (kids ns p q)"
    and "g = sum (wt ns) (kids ns p p)"
  using assms unfolding winv_def by blast+

lemma linvD:
  assumes "linv base C p i ns h"
  shows "C \<le> p" and "p \<le> length ns" and "distinct h" and "set h \<subseteq> {..<p}"
    and "\<And>x. x < p \<Longrightarrow> (par ns x = - 1) = (x \<in> set h)"
    and "\<And>x. x < p \<Longrightarrow> x \<notin> set h \<Longrightarrow>
        int x < par ns x \<and> int C \<le> par ns x \<and> par ns x \<le> int p \<and> 0 \<le> sib ns x \<and> sib ns x < base"
    and "\<And>x. x < p \<Longrightarrow> par ns x = int p \<Longrightarrow> sib ns x < int i"
    and "\<And>x y. x < p \<Longrightarrow> y < p \<Longrightarrow> x \<notin> set h \<Longrightarrow> y \<notin> set h \<Longrightarrow>
        par ns x = par ns y \<Longrightarrow> sib ns x = sib ns y \<Longrightarrow> x = y"
    and "\<And>x. x < p \<Longrightarrow> 0 \<le> TotalHops (ns ! x)"
  using assms unfolding linv_def by blast+

lemma habs_pop: "mset h = add_mset c (mset h') \<Longrightarrow> habs ns h = \<bar>wt ns c\<bar> + habs ns h'"
  by (simp add: habs_def)

lemma habs_cong: "(\<And>x. x \<in> set h \<Longrightarrow> wt ns' x = wt ns x) \<Longrightarrow> habs ns' h = habs ns h"
  unfolding habs_def by (rule arg_cong [where f = sum_mset]) (rule image_mset_cong, simp)

lemma habs_sum_list: "habs ns h = sum_list (map (\<lambda>x. \<bar>wt ns x\<bar>) h)"
  unfolding habs_def by (metis mset_map sum_mset_sum_list)

lemma habs_nonneg: "0 \<le> habs ns h"
  unfolding habs_sum_list by (rule sum_list_nonneg) auto

lemma linv_kids_empty:
  assumes "linv base C p 0 ns h"
  shows "kids ns p p = {}"
proof -
  note l = linvD [OF assms]
  have False if x: "x < p" "par ns x = int p" for x
  proof -
    from l(7) [OF x] have s: "sib ns x < 0" by simp
    from l(5) [OF x(1)] x(2) have "x \<notin> set h" by auto
    from l(6) [OF x(1) this] s show False by simp
  qed
  then show ?thesis by (auto simp: kids_def)
qed

lemma sint_add_no_overflow:
  fixes a b :: go_int
  assumes "\<bar>sint a + sint b\<bar> < 2 ^ 63"
  shows "sint (a + b) = sint a + sint b"
proof -
  have "sint (a + b) = signed_take_bit 63 (sint a + sint b)"
    by (simp add: sint_word_ariths)
  also have "\<dots> = sint a + sint b"
    using assms by (intro signed_take_bit_int_eq_self) simp_all
  finally show ?thesis .
qed

lemma winv_step:
  assumes li: "linv base C p j ns h" and wi: "winv C T p (sint f) ns h" and T: "T < 2 ^ 63"
    and ne: "h \<noteq> []" and pop: "heap_Pop ns h = (c, h')"
    and ns': "ns' = ns[c := (ns ! c)\<lparr>ParentIndex := int p, SiblingIndex := int j\<rparr>]"
  shows "winv C T p (sint (f + Freq (ns ! c))) ns' h'"
proof -
  note l = linvD [OF li] and w = winvD [OF wi]
  from heap_Pop_props [OF ne pop] have ms: "mset h = add_mset c (mset h')" by simp
  note mem = heap_Pop_mem [OF ne pop]
  note hp = heap_Pop_heap [OF w(1) ne pop]
  have cp: "c < p" using mem(1) l(4) by auto
  have cl: "c < length ns" using cp l(2) by simp
  have "distinct (c # h')"
    using l(3) ms by (metis distinct_count_atmost_1 mset.simps(2) set_mset_mset)
  then have cn: "c \<notin> set h'" by simp
  have sub: "set h' \<subseteq> set h" using mem(2) by auto
  have nin: "x \<notin> set h \<longleftrightarrow> x \<notin> set h' \<and> x \<noteq> c" for x using mem(2) by auto
  have wt': "wt ns' x = wt ns x" for x
    unfolding ns' wt_def using cl by (cases "x = c") simp_all
  have par_c: "par ns' c = int p" and sib_c: "sib ns' c = int j" using cl by (simp_all add: ns')
  have other: "x \<noteq> c \<Longrightarrow> par ns' x = par ns x \<and> sib ns' x = sib ns x" for x by (simp add: ns')
  have pc: "par ns c = - 1" using l(5) [OF cp] mem(1) by simp
  have kq: "kids ns' p q = kids ns p q" if "q < p" for q
  proof -
    have "(par ns' x = int q) = (par ns x = int q)" for x
      using par_c pc other [of x] that by (cases "x = c") simp_all
    then show ?thesis by (simp add: kids_def)
  qed
  have kp: "kids ns' p p = insert c (kids ns p p)"
  proof -
    have "(x < p \<and> par ns' x = int p) = (x = c \<or> (x < p \<and> par ns x = int p))" for x
      using par_c cp other [of x] by (cases "x = c") simp_all
    then show ?thesis by (auto simp: kids_def)
  qed
  have ck: "c \<notin> kids ns p p" using pc by (simp add: kids_def)
  have hs: "habs ns h = \<bar>wt ns c\<bar> + habs ns h'" by (rule habs_pop [OF ms])
  have bound: "\<bar>sint f\<bar> + \<bar>wt ns c\<bar> + habs ns h' \<le> T" using w(2) hs by simp
  have g': "sint (f + Freq (ns ! c)) = sint f + wt ns c"
    unfolding wt_def
  proof (rule sint_add_no_overflow)
    have "\<bar>sint f + wt ns c\<bar> \<le> T" using bound habs_nonneg [of ns h'] by simp
    then show "\<bar>sint f + sint (Freq (ns ! c))\<bar> < 2 ^ 63" using T by (simp add: wt_def)
  qed
  have 1: "is_heap ns' h'" using hp(1) by (simp add: is_heap_cong [of h' ns' ns] wt')
  have 2: "\<bar>sint f + wt ns c\<bar> + habs ns' h' \<le> T"
    using bound habs_cong [of h' ns' ns] by (simp add: wt')
  have 3: "\<forall>x<p. \<forall>y \<in> set h'. x \<notin> set h' \<and> born C ns' y x \<longrightarrow> wt ns' x \<le> wt ns' y"
  proof (intro allI impI ballI)
    fix x y assume x: "x < p" and y: "y \<in> set h'" and a: "x \<notin> set h' \<and> born C ns' y x"
    have yh: "y \<in> set h" using y sub by auto
    show "wt ns' x \<le> wt ns' y"
    proof (cases "x = c")
      case True
      with hp(2) yh show ?thesis by (simp add: wt')
    next
      case False
      with x a have xh: "x \<notin> set h" by (simp add: nin)
      have "born C ns y x" using a other [OF False] by (simp add: born_def)
      from w(3) [OF x xh yh this] show ?thesis by (simp add: wt')
    qed
  qed
  have 4: "\<forall>x<p. \<forall>y<p. x \<notin> set h' \<and> y \<notin> set h' \<and> before ns' x y \<and> born C ns' y x
      \<longrightarrow> wt ns' x \<le> wt ns' y"
  proof (intro allI impI)
    fix x y assume x: "x < p" and y: "y < p"
      and a: "x \<notin> set h' \<and> y \<notin> set h' \<and> before ns' x y \<and> born C ns' y x"
    show "wt ns' x \<le> wt ns' y"
    proof (cases "x = c"; cases "y = c")
      assume "x = c" "y = c" then show ?thesis by simp
    next
      assume xc: "x = c" and yc: "y \<noteq> c"
      then have yh: "y \<notin> set h" using a by (simp add: nin)
      note fy = l(6) [OF y yh]
      from a xc have "before ns' c y" by simp
      then have "int p < par ns y \<or> (int p = par ns y \<and> int j \<le> sib ns y)"
        unfolding before_def using par_c sib_c other [OF yc] by simp
      with fy have e: "par ns y = int p" and s: "int j \<le> sib ns y" by auto
      from l(7) [OF y e] s show ?thesis by simp
    next
      assume xc: "x \<noteq> c" and yc: "y = c"
      then have xh: "x \<notin> set h" using a by (simp add: nin)
      have "born C ns c x" using a yc other [OF xc] by (simp add: born_def)
      from w(3) [OF x xh mem(1) this] yc show ?thesis by (simp add: wt')
    next
      assume xc: "x \<noteq> c" and yc: "y \<noteq> c"
      then have xh: "x \<notin> set h" and yh: "y \<notin> set h" using a by (simp_all add: nin)
      have "before ns x y" using a other [OF xc] other [OF yc] by (simp add: before_def)
      moreover have "born C ns y x" using a other [OF xc] by (simp add: born_def)
      ultimately show ?thesis using w(4) [OF x y xh yh] by (simp add: wt')
    qed
  qed
  have wts: "sum (wt ns') A = sum (wt ns) A" for A by (simp add: wt')
  have 5: "\<forall>q. C \<le> q \<and> q < p \<longrightarrow> wt ns' q = sum (wt ns') (kids ns' p q)"
    using w(5) by (simp add: wt' wts kq)
  have 6: "sint f + wt ns c = sum (wt ns') (kids ns' p p)"
    unfolding wts kp using ck w(6) by simp
  show ?thesis
    unfolding winv_def g' using 1 2 3 4 5 6 by blast
qed

lemma winv_close:
  assumes li: "linv base C p j ns h" and wi: "winv C T p (sint f) ns h"
    and pl: "p < length ns"
    and ns2: "ns2 = ns[p := \<lparr>ParentIndex = - 1, SiblingIndex = - 1, TotalHops = hops, Freq = f\<rparr>]"
    and h2: "h2 = heap_Push ns2 h p"
  shows "winv C T (Suc p) 0 ns2 h2"
proof -
  note l = linvD [OF li] and w = winvD [OF wi]
  have ms: "mset h2 = add_mset p (mset h)" unfolding h2 using heap_Push_props by simp
  have seth: "set h2 = insert p (set h)"
    using ms by (metis set_mset_mset set_mset_add_mset_insert)
  have pn: "p \<notin> set h" using l(4) by auto
  have wp: "wt ns2 p = sint f" using pl by (simp add: ns2 wt_def)
  have wo: "x \<noteq> p \<Longrightarrow> wt ns2 x = wt ns x" for x by (simp add: ns2 wt_def)
  have po: "x \<noteq> p \<Longrightarrow> par ns2 x = par ns x \<and> sib ns2 x = sib ns x" for x by (simp add: ns2)
  have pp: "par ns2 p = - 1" using pl by (simp add: ns2)
  have notin: "x < Suc p \<Longrightarrow> x \<notin> set h2 \<Longrightarrow> x < p \<and> x \<notin> set h" for x
    using seth by (metis insertCI less_SucE)
  have wh: "wt ns2 x = wt ns x" if "x \<in> set h" for x
  proof -
    from that pn have "x \<noteq> p" by auto
    then show ?thesis by (rule wo)
  qed
  have "is_heap ns2 h" using w(1) is_heap_cong [of h ns2 ns] wh by simp
  then have 1: "is_heap ns2 h2" unfolding h2 by (rule heap_Push_heap)
  have "habs ns2 h2 = \<bar>wt ns2 p\<bar> + habs ns2 h" by (rule habs_pop [OF ms])
  also have "habs ns2 h = habs ns h" by (rule habs_cong) (rule wh)
  finally have 2: "\<bar>0\<bar> + habs ns2 h2 \<le> T" using w(2) wp by simp
  have 3: "\<forall>x<Suc p. \<forall>y \<in> set h2. x \<notin> set h2 \<and> born C ns2 y x \<longrightarrow> wt ns2 x \<le> wt ns2 y"
  proof (intro allI impI ballI)
    fix x y assume x: "x < Suc p" and y: "y \<in> set h2" and a: "x \<notin> set h2 \<and> born C ns2 y x"
    from notin [OF x] a have xp: "x < p" and xh: "x \<notin> set h" by simp_all
    have wx: "wt ns2 x = wt ns x" using xp wo by simp
    have px: "par ns2 x = par ns x" using xp po by simp
    note fx = l(6) [OF xp xh]
    show "wt ns2 x \<le> wt ns2 y"
    proof (cases "y = p")
      case True
      with a have "p < C \<or> int p < par ns x" by (simp add: born_def px)
      with fx l(1) show ?thesis by simp
    next
      case False
      with y seth have yh: "y \<in> set h" by simp
      have "born C ns y x" using a by (simp add: born_def px)
      from w(3) [OF xp xh yh this] wx wh [OF yh] show ?thesis by simp
    qed
  qed
  have 4: "\<forall>x<Suc p. \<forall>y<Suc p. x \<notin> set h2 \<and> y \<notin> set h2 \<and> before ns2 x y \<and> born C ns2 y x
      \<longrightarrow> wt ns2 x \<le> wt ns2 y"
  proof (intro allI impI)
    fix x y assume x: "x < Suc p" and y: "y < Suc p"
      and a: "x \<notin> set h2 \<and> y \<notin> set h2 \<and> before ns2 x y \<and> born C ns2 y x"
    from notin [OF x] a have xp: "x < p" and xh: "x \<notin> set h" by simp_all
    from notin [OF y] a have yp: "y < p" and yh: "y \<notin> set h" by simp_all
    have "before ns x y" using a po [of x] po [of y] xp yp by (simp add: before_def)
    moreover have "born C ns y x" using a po [of x] xp by (simp add: born_def)
    ultimately show "wt ns2 x \<le> wt ns2 y"
      using w(4) [OF xp yp xh yh] wo [of x] wo [of y] xp yp by simp
  qed
  have kq: "kids ns2 (Suc p) q = kids ns p q" for q
  proof -
    have "(x < Suc p \<and> par ns2 x = int q) = (x < p \<and> par ns x = int q)" for x
      using pp po [of x] by (cases "x = p") auto
    then show ?thesis by (simp add: kids_def)
  qed
  have ks: "sum (wt ns2) (kids ns p q) = sum (wt ns) (kids ns p q)" for q
    by (rule sum.cong) (auto simp: kids_def wo)
  have 5: "\<forall>q. C \<le> q \<and> q < Suc p \<longrightarrow> wt ns2 q = sum (wt ns2) (kids ns2 (Suc p) q)"
  proof (intro allI impI)
    fix q assume q: "C \<le> q \<and> q < Suc p"
    show "wt ns2 q = sum (wt ns2) (kids ns2 (Suc p) q)"
    proof (cases "q = p")
      case True
      with w(6) wp show ?thesis by (simp add: kq ks)
    next
      case False
      with q have qp: "q < p" by simp
      from w(5) [OF _ qp] q wo [OF False] show ?thesis by (simp add: kq ks)
    qed
  qed
  have "kids ns2 (Suc p) (Suc p) = {}"
  proof -
    have False if x: "x < Suc p" "par ns2 x = int (Suc p)" for x
    proof (cases "x = p")
      case True with x pp show False by simp
    next
      case False
      with x have xp: "x < p" by simp
      have px: "par ns x = int (Suc p)" using x(2) po [OF False] by simp
      then have "x \<notin> set h" using l(5) [OF xp] by auto
      from l(6) [OF xp this] px show False by simp
    qed
    then show ?thesis by (auto simp: kids_def)
  qed
  then have 6: "0 = sum (wt ns2) (kids ns2 (Suc p) (Suc p))" by simp
  show ?thesis
    unfolding winv_def using 1 2 3 4 5 6 by simp
qed

lemma combine_wforest:
  assumes f: "forest base C st" and wf: "wforest C T st" and T: "T < 2 ^ 63"
    and k0: "0 \<le> k" and kb: "k \<le> base"
    and c: "combine k st = Inr st'"
  shows "wforest C T st'"
  using c
proof (rule combine_Inr_cases)
  let ?n = "nextNodeIdx st"
  let ?st0 = "st\<lparr>nextNodeIdx := ?n + 1\<rparr>"
  fix st1 i g t
  assume cl: "combine_loop k ?n ?st0 0 0 0 = (st1, i, g, t)"
    and pl: "?n < length (nodes st1)"
    and st': "st' = push_parent st1 ?n \<lparr>ParentIndex = - 1, SiblingIndex = - 1, TotalHops = t + k, Freq = g\<rparr>"
  define Q where "Q = (\<lambda>(s::state) (j::nat) (g::go_int). winv C T ?n (sint g) (nodes s) (nodeHeap s))"
  have inv0: "linv base C ?n 0 (nodes ?st0) (nodeHeap ?st0)" using f by (simp add: forest_def)
  have Q0: "Q ?st0 0 0" using wf by (simp add: Q_def wforest_def)
  have "linv base C ?n i (nodes st1) (nodeHeap st1) \<and> Q st1 i g"
  proof (rule combine_loop_inv_rule [where Q = Q, OF inv0 kb _ _ cl Q0])
    show "(0::int) \<le> 0" by simp
    show "int 0 \<le> k" using k0 by simp
  next
    fix s j g c h'
    assume li: "linv base C ?n j (nodes s) (nodeHeap s)" and q: "Q s j g"
      and pop: "heap_Pop (nodes s) (nodeHeap s) = (c, h')"
      and cin: "c \<in> set (nodeHeap s)"
    from cin have ne: "nodeHeap s \<noteq> []" by auto
    from q have wi: "winv C T ?n (sint g) (nodes s) (nodeHeap s)" by (simp add: Q_def)
    from winv_step [OF li wi T ne pop refl]
    show "Q (pop_step ?n s j c h') (Suc j) (g + Freq (nodes s ! c))"
      by (simp add: Q_def pop_step_fields)
  qed
  then have li: "linv base C ?n i (nodes st1) (nodeHeap st1)"
    and wi: "winv C T ?n (sint g) (nodes st1) (nodeHeap st1)" by (simp_all add: Q_def)
  have nx: "nextNodeIdx st1 = Suc ?n" using combine_loop_fields [OF cl] by simp
  from winv_close [OF li wi pl refl refl]
  show ?thesis
    unfolding wforest_def st' push_parent_fields nx by (simp add: push_parent_def)
qed

lemma init_state_wforest:
  assumes b: "2 \<le> base" and C: "1 \<le> length F"
  shows "wforest (length F) (sum_list (map (\<lambda>f. \<bar>sint f\<bar>) F)) (init_state base F)"
proof -
  let ?st = "init_state base F" and ?C = "length F"
  note fl = init_state_fields [OF b C]
  have f0: "forest base ?C ?st" by (rule init_state_forest [OF b C])
  then have li: "linv base ?C ?C 0 (nodes ?st) (nodeHeap ?st)" by (simp add: forest_def fl)
  have seth: "set (nodeHeap ?st) = {..<?C}"
    using fl(3) by (metis atLeast_upt set_mset_mset set_upt)
  have wl: "wt (nodes ?st) x = sint (F ! x)" if "x < ?C" for x
    using fl(5) [OF that] by (simp add: wt_def leaf_node_def)
  have 1: "is_heap (nodes ?st) (nodeHeap ?st)"
    by (simp add: init_state_def Let_def heap_Init_heap)
  have "habs (nodes ?st) (nodeHeap ?st)
      = sum_mset (image_mset (\<lambda>x. \<bar>wt (nodes ?st) x\<bar>) (mset [0..<?C]))"
    by (simp add: habs_def fl(3))
  also have "\<dots> = sum_list (map (\<lambda>x. \<bar>wt (nodes ?st) x\<bar>) [0..<?C])"
    by (metis mset_map sum_mset_sum_list)
  also have "map (\<lambda>x. \<bar>wt (nodes ?st) x\<bar>) [0..<?C] = map (\<lambda>x. \<bar>sint (F ! x)\<bar>) [0..<?C]"
    by (rule map_cong) (simp_all add: wl)
  also have "\<dots> = map (\<lambda>f. \<bar>sint f\<bar>) (map ((!) F) [0..<?C])" by simp
  also have "\<dots> = map (\<lambda>f. \<bar>sint f\<bar>) F" by (simp add: map_nth)
  finally have 2: "\<bar>0\<bar> + habs (nodes ?st) (nodeHeap ?st) \<le> sum_list (map (\<lambda>f. \<bar>sint f\<bar>) F)" by simp
  have 6: "0 = sum (wt (nodes ?st)) (kids (nodes ?st) ?C ?C)"
    using linv_kids_empty [OF li] by simp
  show ?thesis
    unfolding wforest_def winv_def fl(1) using 1 2 6 seth by auto
qed

subsection \<open>The finished tree: steps that pop no negative node\<close>

lemma huffD:
  assumes "huff base C k0 nb m ns"
  shows "tree base C m (m - 1) ns"
    and "\<And>x y. x < m \<Longrightarrow> y < m \<Longrightarrow> x \<noteq> m - 1 \<Longrightarrow> y \<noteq> m - 1 \<Longrightarrow> before ns x y \<Longrightarrow> born C ns y x
          \<Longrightarrow> wt ns x \<le> wt ns y"
    and "\<And>q. C \<le> q \<Longrightarrow> q < m \<Longrightarrow> wt ns q = sum (wt ns) (kids ns m q)"
    and "\<And>q. C \<le> q \<Longrightarrow> q < m \<Longrightarrow> 2 \<le> card (kids ns m q)"
    and "\<And>q. C \<le> q \<Longrightarrow> q < m \<Longrightarrow> card (kids ns m q) \<le> nb"
    and "\<And>q. C < q \<Longrightarrow> q < m \<Longrightarrow> card (kids ns m q) = nb"
proof -
  from assms show "tree base C m (m - 1) ns" by (simp add: huff_def)
  from assms show "\<And>x y. x < m \<Longrightarrow> y < m \<Longrightarrow> x \<noteq> m - 1 \<Longrightarrow> y \<noteq> m - 1 \<Longrightarrow> before ns x y
      \<Longrightarrow> born C ns y x \<Longrightarrow> wt ns x \<le> wt ns y"
    unfolding huff_def by blast
  from assms show "\<And>q. C \<le> q \<Longrightarrow> q < m \<Longrightarrow> wt ns q = sum (wt ns) (kids ns m q)"
    unfolding huff_def by blast
  from assms have K: "\<And>q. C \<le> q \<Longrightarrow> q < m \<Longrightarrow> card (kids ns m q) = (if q = C then k0 else nb)"
    and k: "2 \<le> k0" "k0 \<le> nb"
    unfolding huff_def by blast+
  show "\<And>q. C \<le> q \<Longrightarrow> q < m \<Longrightarrow> 2 \<le> card (kids ns m q)" using K k by simp
  show "\<And>q. C \<le> q \<Longrightarrow> q < m \<Longrightarrow> card (kids ns m q) \<le> nb" using K k by simp
  show "\<And>q. C < q \<Longrightarrow> q < m \<Longrightarrow> card (kids ns m q) = nb" using K by simp
qed

lemma huff_kid:
  assumes h: "huff base C k0 nb m ns" and c: "c \<in> kids ns m q"
  shows "c < m" and "c \<noteq> m - 1" and "par ns c = int q" and "c < q" and "C \<le> q" and "q < m"
proof -
  note t = huffD(1) [OF h]
  from c show cm: "c < m" and p: "par ns c = int q" by (simp_all add: kids_def)
  from tree_facts(4) [OF t cm] p show cr: "c \<noteq> m - 1" by auto
  from tree_facts(5) [OF t cm cr] p show "c < q" "C \<le> q" "q < m" by simp_all
qed

lemma huff_kid_ex:
  assumes h: "huff base C k0 nb m ns" and q: "C \<le> q" "q < m"
  obtains c where "c \<in> kids ns m q"
proof -
  from huffD(4) [OF h q] have "kids ns m q \<noteq> {}" by auto
  then show thesis using that by auto
qed

lemma huff_inner:
  assumes h: "huff base C k0 nb m ns" and x: "x < m" "x \<noteq> m - 1"
  obtains p where "par ns x = int p" and "x < p" and "C \<le> p" and "p < m"
    and "x \<in> kids ns m p" and "up_path ns m x = sib ns x # up_path ns m p"
proof -
  from tree_parent [OF huffD(1) [OF h] x] obtain p where p: "par ns x = int p" "x < p" "C \<le> p" "p < m"
    "up_path ns m x = sib ns x # up_path ns m p" by blast
  have "x \<in> kids ns m p" using x(1) p(1) by (simp add: kids_def)
  with p show thesis using that by blast
qed

lemma before_total: "before ns x y \<or> before ns y x"
  by (auto simp: before_def)

lemma kid_le_parent:
  assumes h: "huff base C k0 nb m ns" and nn: "nonneg_step ns m q" and c: "c \<in> kids ns m q"
  shows "wt ns c \<le> wt ns q"
proof -
  note k = huff_kid [OF h c]
  have "sum (wt ns) (kids ns m q) = wt ns c + sum (wt ns) (kids ns m q - {c})"
    using c by (simp add: sum.remove)
  moreover have "0 \<le> sum (wt ns) (kids ns m q - {c})"
    by (rule sum_nonneg) (use nn in \<open>auto simp: nonneg_step_def\<close>)
  ultimately show ?thesis using huffD(3) [OF h k(5,6)] by simp
qed

text \<open>After a step whose children are all non-negative every node still to be popped is.\<close>

lemma later_nonneg:
  assumes h: "huff base C k0 nb m ns" and q: "C \<le> q" "q < m" and nn: "nonneg_step ns m q"
    and v: "v < m" and l: "q \<le> v \<or> int q \<le> par ns v"
  shows "0 \<le> wt ns v"
  using v l
proof (induction v rule: less_induct)
  case (less v)
  show ?case
  proof (cases "q \<le> v")
    case True
    then have Cv: "C \<le> v" using q by simp
    have "0 \<le> sum (wt ns) (kids ns m v)"
    proof (rule sum_nonneg)
      fix c assume c: "c \<in> kids ns m v"
      note k = huff_kid [OF h c]
      have "int q \<le> par ns c" using k(3) True by simp
      then show "0 \<le> wt ns c" using less.IH [OF k(4) k(1)] by simp
    qed
    then show ?thesis using huffD(3) [OF h Cv less.prems(1)] by simp
  next
    case False
    with less.prems have pv: "int q \<le> par ns v" and vq: "v < q" by simp_all
    have vr: "v \<noteq> m - 1"
      using tree_facts(4) [OF huffD(1) [OF h] less.prems(1)] pv by auto
    from huff_inner [OF h less.prems(1) vr] obtain p where p: "par ns v = int p"
      and vk: "v \<in> kids ns m p" by blast
    show ?thesis
    proof (cases "p = q")
      case True
      with vk nn show ?thesis by (simp add: nonneg_step_def)
    next
      case False
      with pv p have qp: "q < p" by simp
      from huff_kid_ex [OF h q] obtain c where c: "c \<in> kids ns m q" by blast
      note k = huff_kid [OF h c]
      have "before ns c v" using k(3) p qp by (simp add: before_def)
      moreover have "born C ns v c" using k(3) vq by (simp add: born_def)
      ultimately have "wt ns c \<le> wt ns v"
        using huffD(2) [OF h k(1) less.prems(1) k(2) vr] by simp
      moreover have "0 \<le> wt ns c" using nn c by (simp add: nonneg_step_def)
      ultimately show ?thesis by simp
    qed
  qed
qed

lemma later_nonneg_step:
  assumes h: "huff base C k0 nb m ns" and q: "C \<le> q" "q < m" and nn: "nonneg_step ns m q"
    and v: "q \<le> v"
  shows "nonneg_step ns m v"
  unfolding nonneg_step_def
proof (intro allI impI)
  fix c assume c: "c \<in> kids ns m v"
  note k = huff_kid [OF h c]
  have "int q \<le> par ns c" using k(3) v by simp
  then show "0 \<le> wt ns c" using later_nonneg [OF h q nn k(1)] by simp
qed

text \<open>From such a step on the nodes are popped in the order of their weights.\<close>

lemma later_ordered:
  assumes h: "huff base C k0 nb m ns" and q: "C \<le> q" "q < m" and nn: "nonneg_step ns m q"
    and u: "u < m" "u \<noteq> m - 1" "int q \<le> par ns u"
    and v: "v < m" "v \<noteq> m - 1" and b: "before ns u v"
  shows "wt ns u \<le> wt ns v"
  using v b
proof (induction v rule: less_induct)
  case (less v)
  note vm = less.prems(1) and vr = less.prems(2) and b = less.prems(3)
  from huff_inner [OF h u(1,2)] obtain pu where pu: "par ns u = int pu" "pu < m"
    and uk: "u \<in> kids ns m pu" by blast
  have qpu: "q \<le> pu" using u(3) pu(1) by simp
  show ?case
  proof (cases "born C ns v u")
    case True
    from huffD(2) [OF h u(1) vm u(2) vr b True] show ?thesis .
  next
    case False
    then have Cv: "C \<le> v" and puv: "pu \<le> v" using pu(1) by (simp_all add: born_def)
    have nv: "nonneg_step ns m v"
      by (rule later_nonneg_step [OF h q nn]) (use qpu puv in simp)
    show ?thesis
    proof (cases "v = pu")
      case True
      with kid_le_parent [OF h nv] uk show ?thesis by simp
    next
      case False
      with puv have lt: "pu < v" by simp
      from huff_kid_ex [OF h Cv vm] obtain c where c: "c \<in> kids ns m v" by blast
      note k = huff_kid [OF h c]
      have "before ns u c" using pu(1) k(3) lt by (simp add: before_def)
      from less.IH [OF k(4) k(1) k(2) this] kid_le_parent [OF h nv c] show ?thesis by simp
    qed
  qed
qed

lemma sum_less_by_card:
  fixes f :: "nat \<Rightarrow> int"
  assumes fA: "finite A" and fB: "finite B" and cd: "card A \<le> card B"
    and le: "\<And>a b. a \<in> A \<Longrightarrow> b \<in> B \<Longrightarrow> f a \<le> f b" and nn: "\<And>b. b \<in> B \<Longrightarrow> 0 \<le> f b"
    and x: "x \<in> A" and y: "y \<in> B" and lt: "f x < f y"
  shows "sum f A < sum f B"
proof -
  have le': "sum f A' \<le> sum f B'"
    if "finite A'" "finite B'" "card A' \<le> card B'" "A' \<subseteq> A" "B' \<subseteq> B" for A' B'
    using that
  proof (induction A' arbitrary: B' rule: finite_induct)
    case empty
    then show ?case using nn by (simp add: sum_nonneg subset_iff)
  next
    case (insert a A')
    from insert.prems(2) insert.hyps(1,2) have "0 < card B'" by simp
    then obtain b where b: "b \<in> B'" using insert.prems(1) by (metis card_gt_0_iff ex_in_conv)
    have fin: "finite (B' - {b})" using insert.prems(1) by simp
    have cd: "card A' \<le> card (B' - {b})"
      using insert.prems(1,2) insert.hyps(1,2) b by simp
    have "sum f A' \<le> sum f (B' - {b})"
      by (rule insert.IH [OF fin cd]) (use insert.prems in auto)
    moreover have "f a \<le> f b" using insert.prems(3,4) b le by auto
    moreover have "sum f B' = f b + sum f (B' - {b})"
      using insert.prems(1) b by (simp add: sum.remove)
    ultimately show ?case using insert.hyps by simp
  qed
  have cA: "card (A - {x}) = card A - 1" using fA x by simp
  have cB: "card (B - {y}) = card B - 1" using fB y by simp
  have "sum f (A - {x}) \<le> sum f (B - {y})"
    by (rule le') (use fA fB cd cA cB in auto)
  moreover have "sum f A = f x + sum f (A - {x})" using fA x by (simp add: sum.remove)
  moreover have "sum f B = f y + sum f (B - {y})" using fB y by (simp add: sum.remove)
  ultimately show ?thesis using lt by simp
qed

lemma parent_weight_step:
  assumes h: "huff base C k0 nb m ns" and nn: "nonneg_step ns m p"
    and x: "x \<in> kids ns m p" and y: "y \<in> kids ns m q" and pq: "p < q" and lt: "wt ns x < wt ns y"
  shows "wt ns p < wt ns q"
proof -
  note kx = huff_kid [OF h x] and ky = huff_kid [OF h y]
  have Cq: "C < q" using kx(5) pq by simp
  have cd: "card (kids ns m p) \<le> card (kids ns m q)"
    using huffD(5) [OF h kx(5,6)] huffD(6) [OF h Cq ky(6)] by simp
  have le: "wt ns a \<le> wt ns b" if "a \<in> kids ns m p" "b \<in> kids ns m q" for a b
  proof -
    note ka = huff_kid [OF h that(1)] and kb = huff_kid [OF h that(2)]
    have "before ns a b" using ka(3) kb(3) pq by (simp add: before_def)
    moreover have "int p \<le> par ns a" using ka(3) by simp
    ultimately show ?thesis
      using later_ordered [OF h kx(5,6) nn ka(1,2) _ kb(1,2)] by simp
  qed
  have nq: "0 \<le> wt ns b" if "b \<in> kids ns m q" for b
  proof -
    note kb = huff_kid [OF h that]
    have "int p \<le> par ns b" using kb(3) pq by simp
    then show ?thesis using later_nonneg [OF h kx(5,6) nn kb(1)] by simp
  qed
  have "sum (wt ns) (kids ns m p) < sum (wt ns) (kids ns m q)"
    by (rule sum_less_by_card [OF _ _ cd le nq x y lt]) simp_all
  then show ?thesis using huffD(3) [OF h kx(5,6)] huffD(3) [OF h ky(5,6)] by simp
qed

subsection \<open>The finished tree: steps that pop a negative node\<close>

text \<open>
  A step that pops a negative node: the step before it has popped one too, and its
  parent is among the nodes popped now.
\<close>

lemma negative_step_chain:
  assumes h: "huff base C k0 nb m ns" and q: "C < q" "q < m" and ng: "\<not> nonneg_step ns m q"
  shows "par ns (q - 1) = int q \<and> \<not> nonneg_step ns m (q - 1)"
proof -
  define z where "z = q - 1"
  have qz: "q = Suc z" using q by (simp add: z_def)
  have Cz: "C \<le> z" and zm: "z < m" and zr: "z \<noteq> m - 1" using q by (simp_all add: z_def)
  from ng obtain c where c: "c \<in> kids ns m q" and cneg: "wt ns c < 0"
    by (auto simp: nonneg_step_def not_le)
  note kc = huff_kid [OF h c]
  have nz: "\<not> nonneg_step ns m z"
  proof
    assume "nonneg_step ns m z"
    moreover have "int z \<le> par ns c" using kc(3) qz by simp
    ultimately have "0 \<le> wt ns c" using later_nonneg [OF h Cz zm _ kc(1)] by simp
    with cneg show False by simp
  qed
  from huff_inner [OF h zm zr] obtain p where p: "par ns z = int p" and zp: "z < p" by blast
  have "p = q"
  proof (rule ccontr)
    assume "p \<noteq> q"
    with zp qz have qp: "q < p" by simp
    have "before ns c z" using kc(3) p qp by (simp add: before_def)
    moreover have "born C ns z c" using kc(3) qz by (simp add: born_def)
    ultimately have cz: "wt ns c \<le> wt ns z"
      using huffD(2) [OF h kc(1) zm kc(2) zr] by simp
    have "c \<noteq> z" using kc(3) p \<open>p \<noteq> q\<close> by auto
    with kc(4) qz have clt: "c < z" by simp
    have ac: "wt ns a \<le> wt ns c" if "a \<in> kids ns m z" for a
    proof -
      note ka = huff_kid [OF h that]
      have "before ns a c" using ka(3) kc(3) qz by (simp add: before_def)
      moreover have "born C ns c a" using ka(3) clt by (simp add: born_def)
      ultimately show ?thesis using huffD(2) [OF h ka(1) kc(1) ka(2) kc(2)] by simp
    qed
    from huff_kid_ex [OF h Cz zm] obtain a where a: "a \<in> kids ns m z" by blast
    have "card (kids ns m z - {a}) = card (kids ns m z) - 1" using a by simp
    with huffD(4) [OF h Cz zm] have "0 < card (kids ns m z - {a})" by simp
    then have "kids ns m z - {a} \<noteq> {}" using card_gt_0_iff by blast
    then obtain a' where a': "a' \<in> kids ns m z - {a}" by auto
    have "sum (wt ns) (kids ns m z - {a}) = wt ns a' + sum (wt ns) (kids ns m z - {a} - {a'})"
      using a' by (simp add: sum.remove)
    moreover have "sum (wt ns) (kids ns m z - {a} - {a'}) \<le> 0"
      by (rule sum_nonpos) (use ac cneg in fastforce)
    moreover have "wt ns a' < 0" using ac [of a'] a' cneg by simp
    ultimately have "sum (wt ns) (kids ns m z - {a}) < 0" by simp
    moreover have "sum (wt ns) (kids ns m z) = wt ns a + sum (wt ns) (kids ns m z - {a})"
      using a by (simp add: sum.remove)
    ultimately have "wt ns z < wt ns a" using huffD(3) [OF h Cz zm] by simp
    with ac [OF a] cz show False by simp
  qed
  with p nz show ?thesis by (simp add: z_def)
qed

lemma negative_steps_depth:
  assumes h: "huff base C k0 nb m ns" and Z: "Z < m" and ng: "\<not> nonneg_step ns m Z"
    and X: "C \<le> X" "X \<le> Z"
  shows "\<not> nonneg_step ns m X \<and> length (up_path ns m X) = length (up_path ns m Z) + (Z - X)"
  using X
proof (induction d \<equiv> "Z - X" arbitrary: X)
  case 0
  then show ?case using ng by simp
next
  case (Suc d)
  then have d: "d = Z - Suc X" and le: "Suc X \<le> Z" and CX: "C \<le> Suc X" by simp_all
  from Suc.hyps(1) [OF d CX le]
  have n1: "\<not> nonneg_step ns m (Suc X)"
    and l1: "length (up_path ns m (Suc X)) = length (up_path ns m Z) + (Z - Suc X)" by simp_all
  have "C < Suc X" "Suc X < m" using Suc.prems le Z by simp_all
  from negative_step_chain [OF h this n1]
  have p: "par ns X = int (Suc X)" and nX: "\<not> nonneg_step ns m X" by simp_all
  have Xm: "X < m" and Xr: "X \<noteq> m - 1" using le Z by simp_all
  from huff_inner [OF h Xm Xr] obtain p' where pp: "par ns X = int p'"
    and up: "up_path ns m X = sib ns X # up_path ns m p'" by blast
  from pp p have "p' = Suc X" by (metis of_nat_eq_iff)
  with up have "up_path ns m X = sib ns X # up_path ns m (Suc X)" by simp
  with l1 le nX show ?case by simp
qed

text \<open>
  The last step that pops a negative node creates a node that is lighter than every
  node created after it.
\<close>

lemma last_negative_step:
  assumes h: "huff base C k0 nb m ns" and Z: "C \<le> Z" "Suc Z < m"
    and ng: "\<not> nonneg_step ns m Z" and nn: "nonneg_step ns m (Suc Z)"
    and Y: "Z < Y" "Y < m"
  shows "wt ns Z < wt ns Y"
proof -
  let ?K = "kids ns m Z"
  have Zm: "Z < m" and Zr: "Z \<noteq> m - 1" and CS: "C \<le> Suc Z" using Z by simp_all
  from huff_inner [OF h Zm Zr] obtain pz where pz: "par ns Z = int pz" "Z < pz" by blast
  have Z0: "0 \<le> wt ns Z"
    by (rule later_nonneg [OF h CS Z(2) nn Zm]) (use pz in simp)
  from ng obtain a1 where a1: "a1 \<in> ?K" and a1neg: "wt ns a1 < 0"
    by (auto simp: nonneg_step_def not_le)
  have Kne: "?K \<noteq> {}" using a1 by auto
  define A where "A = Max (wt ns ` ?K)"
  have Amax: "wt ns a \<le> A" if "a \<in> ?K" for a
    unfolding A_def using that by simp
  have "A \<in> wt ns ` ?K" unfolding A_def using Kne by (intro Max_in) simp_all
  then obtain aK where aK: "aK \<in> ?K" and wK: "wt ns aK = A" by auto
  note kK = huff_kid [OF h aK]
  have rest: "sum (wt ns) (?K - {a1}) \<le> int (card (?K - {a1})) * A"
    by (rule sum_bounded_above) (use Amax in simp)
  have SZ: "wt ns Z = wt ns a1 + sum (wt ns) (?K - {a1})"
    using huffD(3) [OF h Z(1) Zm] a1 by (simp add: sum.remove)
  have c1: "card (?K - {a1}) = card ?K - 1" using a1 by simp
  have ZA: "wt ns Z < int (card ?K - 1) * A" using SZ rest a1neg c1 by simp
  have Apos: "0 < A"
  proof (rule ccontr)
    assume "\<not> 0 < A"
    then have "A \<le> 0" by simp
    have "int (card ?K - 1) * A \<le> 0"
      by (rule mult_nonneg_nonpos) (use \<open>A \<le> 0\<close> in simp_all)
    with ZA Z0 show False by linarith
  qed
  have cnb: "card ?K \<le> nb" by (rule huffD(5) [OF h Z(1) Zm])
  have "int (card ?K - 1) * A \<le> int nb * A"
    using cnb Apos by (intro mult_right_mono) simp_all
  with ZA have ZnA: "wt ns Z < int nb * A" by simp
  have P: "(v \<noteq> m - 1 \<and> int Z < par ns v \<and> v \<noteq> Z \<longrightarrow> A \<le> wt ns v)
      \<and> (Z < v \<longrightarrow> wt ns Z < wt ns v \<and> A \<le> wt ns v)" if "v < m" for v
    using that
  proof (induction v rule: less_induct)
    case (less v)
    have 2: "wt ns Z < wt ns v \<and> A \<le> wt ns v" if Zv: "Z < v"
    proof -
      let ?V = "kids ns m v"
      have Cv: "C < v" using Z(1) Zv by simp
      then have Cv': "C \<le> v" by simp
      have cv: "card ?V = nb" by (rule huffD(6) [OF h Cv less.prems])
      have c2: "2 \<le> card ?V" by (rule huffD(4) [OF h Cv' less.prems])
      have Sv: "wt ns v = sum (wt ns) ?V" by (rule huffD(3) [OF h Cv' less.prems])
      have kA: "A \<le> wt ns c" if "c \<in> ?V" "c \<noteq> Z" for c
      proof -
        note k = huff_kid [OF h that(1)]
        have "int Z < par ns c" using k(3) Zv by simp
        with less.IH [OF k(4) k(1)] k(2) that(2) show ?thesis by simp
      qed
      show ?thesis
      proof (cases "Z \<in> ?V")
        case True
        define n where "n = card (?V - {Z})"
        have n1: "1 \<le> n" using True c2 by (simp add: n_def)
        have "int n * A \<le> sum (wt ns) (?V - {Z})"
          unfolding n_def by (rule sum_bounded_below) (use kA in simp)
        moreover have "1 * A \<le> int n * A"
          by (rule mult_right_mono) (use n1 Apos in simp_all)
        ultimately have rest: "A \<le> sum (wt ns) (?V - {Z})" by simp
        have "sum (wt ns) ?V = wt ns Z + sum (wt ns) (?V - {Z})"
          using True by (simp add: sum.remove)
        with rest show ?thesis using Sv Apos Z0 by simp
      next
        case False
        have "int (card ?V) * A \<le> sum (wt ns) ?V"
          by (rule sum_bounded_below) (use kA False in auto)
        then have a: "int nb * A \<le> wt ns v" using Sv cv by simp
        moreover have "1 * A \<le> int nb * A"
          using c2 cv Apos by (intro mult_right_mono) simp_all
        ultimately show ?thesis using ZnA by simp
      qed
    qed
    have 1: "A \<le> wt ns v" if vr: "v \<noteq> m - 1" and pv: "int Z < par ns v" and vZ: "v \<noteq> Z"
    proof (cases "Z < v")
      case True
      with 2 show ?thesis by simp
    next
      case False
      with vZ have vlt: "v < Z" by simp
      have "before ns aK v" using kK(3) pv by (simp add: before_def)
      moreover have "born C ns v aK" using kK(3) vlt by (simp add: born_def)
      ultimately show ?thesis using huffD(2) [OF h kK(1) less.prems kK(2) vr] wK by simp
    qed
    from 1 2 show ?case by blast
  qed
  from P [OF Y(2)] Y(1) show ?thesis by simp
qed

lemma last_false:
  fixes X Y :: nat
  assumes "\<not> P X" and "P Y" and "X < Y"
  shows "\<exists>Z. X \<le> Z \<and> Z < Y \<and> \<not> P Z \<and> P (Suc Z)"
  using assms(2,3)
proof (induction Y)
  case 0
  then show ?case by simp
next
  case (Suc Y)
  show ?case
  proof (cases "P Y")
    case False
    with Suc.prems show ?thesis by (intro exI [of _ Y]) simp
  next
    case True
    have "X \<noteq> Y" using True assms(1) by auto
    with Suc.prems have "X < Y" by simp
    from Suc.IH [OF True this] show ?thesis by (meson less_Suc_eq)
  qed
qed

text \<open>
  A node that is popped before another and is lighter than it is at least as deep.
\<close>

lemma lighter_is_deeper:
  assumes h: "huff base C k0 nb m ns"
    and x: "x < m" "x \<noteq> m - 1" and y: "y < m" and e: "y = m - 1 \<or> before ns x y"
    and lt: "wt ns x < wt ns y"
  shows "length (up_path ns m y) \<le> length (up_path ns m x)"
  using x y e lt
proof (induction k \<equiv> "m - x" arbitrary: x y rule: less_induct)
  case less
  note x = less.prems(1,2) and y = less.prems(3) and e = less.prems(4) and lt = less.prems(5)
  note t = huffD(1) [OF h]
  show ?case
  proof (cases "y = m - 1")
    case True
    then show ?thesis using up_path_root [OF t] by simp
  next
    case yr: False
    with e have b: "before ns x y" by simp
    from huff_inner [OF h x] obtain p where p: "par ns x = int p" and xp: "x < p" and Cp: "C \<le> p"
      and pm: "p < m" and xk: "x \<in> kids ns m p" and ux: "up_path ns m x = sib ns x # up_path ns m p"
      by blast
    from huff_inner [OF h y yr] obtain q where q: "par ns y = int q" and yq: "y < q" and Cq: "C \<le> q"
      and qm: "q < m" and yk: "y \<in> kids ns m q" and uy: "up_path ns m y = sib ns y # up_path ns m q"
      by blast
    have ple: "p \<le> q" using b p q by (auto simp: before_def)
    show ?thesis
    proof (cases "p = q")
      case True
      then show ?thesis by (simp add: ux uy)
    next
      case False
      with ple have pq: "p < q" by simp
      then have pr: "p \<noteq> m - 1" using qm by simp
      have mp: "m - p < m - x" using xp x(1) by simp
      have early: "before ns z q" if z: "z < q" "z < m" "z \<noteq> m - 1" "wt ns z < wt ns q" "q \<noteq> m - 1"
        for z
      proof (rule ccontr)
        assume "\<not> before ns z q"
        with before_total have bq: "before ns q z" by blast
        from huff_inner [OF h qm z(5)] obtain q' where "par ns q = int q'" "q < q'" by blast
        then have "born C ns z q" using z(1) by (simp add: born_def)
        from huffD(2) [OF h qm z(2) z(5) z(3) bq this] z(4) show False by simp
      qed
      show ?thesis
      proof (cases "nonneg_step ns m p")
        case True
        from parent_weight_step [OF h True xk yk pq lt] have w: "wt ns p < wt ns q" .
        have "q = m - 1 \<or> before ns p q" using early [OF pq pm pr w] by blast
        from less.hyps [OF mp pm pr qm this w] show ?thesis by (simp add: ux uy)
      next
        case np: False
        show ?thesis
        proof (cases "nonneg_step ns m q")
          case False
          from negative_steps_depth [OF h qm False Cp ple]
          show ?thesis by (simp add: ux uy)
        next
          case True
          from last_false [of "nonneg_step ns m" p q, OF np True pq]
          obtain Z where Z: "p \<le> Z" "Z < q" "\<not> nonneg_step ns m Z" "nonneg_step ns m (Suc Z)"
            by blast
          have CZ: "C \<le> Z" and Zm: "Z < m" and SZ: "Suc Z < m" and Zr: "Z \<noteq> m - 1"
            using Z(1,2) Cp qm by simp_all
          from negative_steps_depth [OF h Zm Z(3) Cp Z(1)]
          have dp: "length (up_path ns m p) = length (up_path ns m Z) + (Z - p)" by simp
          from last_negative_step [OF h CZ SZ Z(3,4) Z(2) qm] have w: "wt ns Z < wt ns q" .
          have eq: "q = m - 1 \<or> before ns Z q" using early [OF Z(2) Zm Zr w] by blast
          have "m - Z < m - x" using Z(1) xp x(1) by simp
          from less.hyps [OF this Zm Zr qm eq w] dp show ?thesis by (simp add: ux uy)
        qed
      qed
    qed
  qed
qed

section \<open>Properties\<close>

subsection \<open>Concrete runs\<close>

text \<open>
  C8: \<open>Label(2, [1,1,1,1,1])\<close> returns exactly the labels
  \<open>[[0,0],[1,1,1],[1,0],[1,1,0],[0,1]]\<close> in that order, which the alphabet \<open>ab\<close>
  renders as \<open>aa, bbb, ba, bba, ab\<close>.
\<close>

theorem Label_five_ones:
  "Label 2 [1, 1, 1, 1, 1] = Some (Inr [[0, 0], [1, 1, 1], [1, 0], [1, 1, 0], [0, 1]])
   \<and> alphabet_Labels ''ab'' [[0, 0], [1, 1, 1], [1, 0], [1, 1, 0], [0, 1]]
       = [''aa'', ''bbb'', ''ba'', ''bba'', ''ab'']"
  by code_simp

text \<open>
  C9: for every \<open>base\<close> of at least 2 and every single frequency \<open>f\<close>,
  \<open>Label(base, [f])\<close> returns exactly \<open>[[0]]\<close>, whatever \<open>f\<close> and \<open>base\<close> are.
\<close>

theorem Label_single: "2 \<le> base \<Longrightarrow> Label base [f] = Some (Inr [[0]])"
  by (simp add: Label_def)

theorem Label_single_witness:
  "(2::int) \<le> 26 \<and> Label 26 [- 7] = Some (Inr [[0]])"
  using Label_single [of 26 "- 7"] by simp

lemma Label_small:
  assumes b: "2 \<le> base" and C: "length F < 2"
  shows "Label base F = Some (Inr (if F = [] then [] else [[0]]))"
proof -
  from C have "F = [] \<or> (\<exists>f. F = [f])" by (cases F; cases "tl F") auto
  then show ?thesis using b by (auto simp: Label_def)
qed

lemma Label_tree:
  assumes b: "2 \<le> base" and C: "2 \<le> length F"
  shows "\<exists>st. build base F = Inr st
     \<and> tree base (length F) (nextNodeIdx st) (nextNodeIdx st - 1) (nodes st)
     \<and> length F \<le> nextNodeIdx st - 1
     \<and> Label base F = Some (Inr (map (\<lambda>x. rev (up_path (nodes st) (nextNodeIdx st) x)) [0..<length F]))"
  using Label_run [where R = "\<lambda>_. True", OF b C] unfolding labelled_def by auto

subsection \<open>The labels\<close>

text \<open>
  C1: for every \<open>base\<close> of at least 2 and every list of frequencies, \<open>Label\<close> returns
  labels that are pairwise prefix-free and pairwise distinct: no label is a prefix of
  the label of another item, and no two items have the same label.
\<close>

theorem Label_prefix_free:
  assumes "2 \<le> base"
  shows "\<exists>labels. Label base F = Some (Inr labels) \<and>
           (\<forall>i<length labels. \<forall>j<length labels. i \<noteq> j \<longrightarrow>
              \<not> prefix (labels ! i) (labels ! j) \<and> labels ! i \<noteq> labels ! j)"
proof (cases "2 \<le> length F")
  case False
  then have "length F < 2" by simp
  from Label_small [OF assms this] show ?thesis by auto
next
  case True
  from Label_tree [OF assms True] obtain st :: state where
    t: "tree base (length F) (nextNodeIdx st) (nextNodeIdx st - 1) (nodes st)"
    and L: "Label base F = Some (Inr (map (\<lambda>x. rev (up_path (nodes st) (nextNodeIdx st) x)) [0..<length F]))"
    by blast
  let ?ls = "map (\<lambda>x. rev (up_path (nodes st) (nextNodeIdx st) x)) [0..<length F]"
  have "\<not> prefix (?ls ! i) (?ls ! j) \<and> ?ls ! i \<noteq> ?ls ! j"
    if "i < length ?ls" "j < length ?ls" "i \<noteq> j" for i j
  proof -
    from that have i: "i < length F" and j: "j < length F" by simp_all
    have "\<not> prefix (?ls ! i) (?ls ! j)"
      using leaf_labels_prefix_free [OF t i j that(3)] i j by simp
    then show ?thesis by auto
  qed
  with L show ?thesis by blast
qed

theorem Label_prefix_free_witness:
  "\<exists>labels. Label 2 [1, 1, 1, 1, 1] = Some (Inr labels) \<and> length labels = 5
     \<and> \<not> prefix (labels ! 0) (labels ! 4) \<and> labels ! 0 \<noteq> labels ! 4"
proof -
  have e: "Label 2 [1, 1, 1, 1, 1] = Some (Inr [[0, 0], [1, 1, 1], [1, 0], [1, 1, 0], [0, 1]])"
    by code_simp
  from Label_prefix_free [of 2 "[1, 1, 1, 1, 1]"] obtain labels where
    L: "Label 2 [1, 1, 1, 1, 1] = Some (Inr labels)"
    and P: "\<forall>i<length labels. \<forall>j<length labels. i \<noteq> j \<longrightarrow>
              \<not> prefix (labels ! i) (labels ! j) \<and> labels ! i \<noteq> labels ! j"
    by auto
  from L e have "labels = [[0, 0], [1, 1, 1], [1, 0], [1, 1, 0], [0, 1]]" by simp
  then have len: "length labels = 5" by simp
  with P have "\<not> prefix (labels ! 0) (labels ! 4) \<and> labels ! 0 \<noteq> labels ! 4"
    by simp
  with L len show ?thesis by blast
qed

text \<open>
  C2: for every \<open>base\<close> of at least 2 and every list of frequencies, every label that
  \<open>Label\<close> returns has length at least 1, and every symbol index in it lies in
  \<open>[0, base)\<close>.
\<close>

theorem Label_symbols:
  assumes "2 \<le> base"
  shows "\<exists>labels. Label base F = Some (Inr labels) \<and>
           (\<forall>l \<in> set labels. 1 \<le> length l \<and> (\<forall>s \<in> set l. 0 \<le> s \<and> s < base))"
proof (cases "2 \<le> length F")
  case False
  then have "length F < 2" by simp
  from Label_small [OF assms this] assms show ?thesis by auto
next
  case True
  from Label_tree [OF assms True] obtain st :: state where
    t: "tree base (length F) (nextNodeIdx st) (nextNodeIdx st - 1) (nodes st)"
    and r: "length F \<le> nextNodeIdx st - 1"
    and L: "Label base F = Some (Inr (map (\<lambda>x. rev (up_path (nodes st) (nextNodeIdx st) x)) [0..<length F]))"
    by blast
  let ?ls = "map (\<lambda>x. rev (up_path (nodes st) (nextNodeIdx st) x)) [0..<length F]"
  have "1 \<le> length l \<and> (\<forall>s \<in> set l. 0 \<le> s \<and> s < base)" if "l \<in> set ?ls" for l
  proof -
    from that obtain x where x: "x < length F" and l: "l = rev (up_path (nodes st) (nextNodeIdx st) x)"
      by auto
    have xm: "x < nextNodeIdx st" and xr: "x \<noteq> nextNodeIdx st - 1"
      using x r tree_facts(3) [OF t] by simp_all
    have "up_path (nodes st) (nextNodeIdx st) x \<noteq> []" by (rule up_path_nonempty [OF t xm xr])
    then have "1 \<le> length l" unfolding l by (cases "up_path (nodes st) (nextNodeIdx st) x") simp_all
    moreover have "\<forall>s \<in> set l. 0 \<le> s \<and> s < base"
      unfolding l using up_path_symbols [OF t xm] by simp
    ultimately show ?thesis by simp
  qed
  with L show ?thesis by blast
qed

theorem Label_symbols_witness:
  "\<exists>labels. Label 4 [5, 4, 3, 2, 1] = Some (Inr labels) \<and> labels ! 3 \<in> set labels
     \<and> 1 \<le> length (labels ! 3) \<and> 0 \<le> labels ! 3 ! 1 \<and> labels ! 3 ! 1 < 4"
proof -
  have e: "Label 4 [5, 4, 3, 2, 1] = Some (Inr [[3], [2], [0], [1, 1], [1, 0]])"
    by code_simp
  from Label_symbols [of 4 "[5, 4, 3, 2, 1]"] obtain labels where
    L: "Label 4 [5, 4, 3, 2, 1] = Some (Inr labels)"
    and P: "\<forall>l \<in> set labels. 1 \<le> length l \<and> (\<forall>s \<in> set l. 0 \<le> s \<and> s < 4)"
    by auto
  from L e have ls: "labels = [[3], [2], [0], [1, 1], [1, 0]]" by simp
  then have m: "labels ! 3 \<in> set labels" by simp
  with P have 1: "1 \<le> length (labels ! 3)" and 2: "\<forall>s \<in> set (labels ! 3). 0 \<le> s \<and> s < 4"
    by blast+
  have "labels ! 3 ! 1 \<in> set (labels ! 3)" unfolding ls by simp
  with 2 have "0 \<le> labels ! 3 ! 1 \<and> labels ! 3 ! 1 < 4" by blast
  with L m 1 show ?thesis by blast
qed

subsection \<open>Failure\<close>

text \<open>
  C4: \<open>Label\<close> fails with the invalid-argument panic exactly when \<open>base < 2\<close>,
  whatever the frequencies are, and then its result is the panic alone; for every
  \<open>base\<close> of at least 2 it ends and returns labels for every list of frequencies,
  empty, single, zero, negative or repeated.
\<close>

theorem Label_fails_iff:
  "(base < 2 \<longrightarrow> Label base F = Some (Inl InvalidArgument)) \<and>
   (2 \<le> base \<longrightarrow> (\<exists>labels. Label base F = Some (Inr labels)))"
proof (intro conjI impI)
  assume "base < 2"
  then show "Label base F = Some (Inl InvalidArgument)" by (simp add: Label_def)
next
  assume b: "2 \<le> base"
  show "\<exists>labels. Label base F = Some (Inr labels)"
  proof (cases "2 \<le> length F")
    case False
    then have "length F < 2" by simp
    from Label_small [OF b this] show ?thesis by auto
  next
    case True
    from Label_tree [OF b True] show ?thesis by blast
  qed
qed

theorem Label_fails_iff_witness:
  "Label 1 [1, 2, 3] = Some (Inl InvalidArgument) \<and> Label (- 5) [] = Some (Inl InvalidArgument)
   \<and> (\<exists>labels. Label 2 [0, - 3, - 3, 9223372036854775807, 9223372036854775807] = Some (Inr labels))"
proof -
  have "(1::int) < 2" and "(- 5::int) < 2" and "(2::int) \<le> 2" by simp_all
  with Label_fails_iff [of 1 "[1, 2, 3]"] Label_fails_iff [of "- 5" "[]"]
    Label_fails_iff [of 2 "[0, - 3, - 3, 9223372036854775807, 9223372036854775807]"]
  show ?thesis by blast
qed

text \<open>
  C3: for every \<open>base\<close> of at least 2, \<open>Label\<close> returns one label per frequency, in
  the order of the frequencies: the result is as long as the input (so the empty
  input gives the empty result), and label \<open>i\<close> is the path walked from the pool
  node \<open>i\<close>, the leaf that holds frequency \<open>i\<close>.
\<close>

theorem Label_order:
  assumes b: "2 \<le> base"
  shows "Label base [] = Some (Inr []) \<and>
         (\<exists>labels. Label base F = Some (Inr labels) \<and> length labels = length F \<and>
           (2 \<le> length F \<longrightarrow>
              (\<exists>st. build base F = Inr st \<and>
                 (\<forall>i<length F. Freq (nodes st ! i) = F ! i \<and>
                    walk (nodes st) (nodes st ! i) [] = Some (Inr (rev (labels ! i)))))))"
proof (rule conjI)
  show "Label base [] = Some (Inr [])" using b by (simp add: Label_def)
next
  show "\<exists>labels. Label base F = Some (Inr labels) \<and> length labels = length F \<and>
           (2 \<le> length F \<longrightarrow>
              (\<exists>st. build base F = Inr st \<and>
                 (\<forall>i<length F. Freq (nodes st ! i) = F ! i \<and>
                    walk (nodes st) (nodes st ! i) [] = Some (Inr (rev (labels ! i))))))"
proof (cases "2 \<le> length F")
  case False
  then have "F = [] \<or> (\<exists>f. F = [f])" by (cases F; cases "tl F") auto
  then show ?thesis using b by (auto simp: Label_def)
next
  case True
  define R where "R = (\<lambda>s::state. \<forall>x<length F. Freq (nodes s ! x) = F ! x)"
  have "\<exists>st. labelled base F st \<and> R st"
  proof (rule Label_run [where R = R, OF b True])
    fix st1
    assume c: "combine (initial_count base (length F)) (init_state base F) = Inr st1"
    have C1: "1 \<le> length F" using True by simp
    note fl = init_state_fields [OF b C1]
    show "R st1"
      unfolding R_def
    proof (intro allI impI)
      fix x assume x: "x < length F"
      then have "x \<noteq> nextNodeIdx (init_state base F)" by (simp add: fl)
      from combine_Freq [OF c this] fl(5) [OF x] show "Freq (nodes st1 ! x) = F ! x"
        by (simp add: leaf_node_def)
    qed
  next
    fix s s'
    assume inv: "loop_inv base (length F) s" and R: "R s" and c: "combine base s = Inr s'"
    show "R s'"
      unfolding R_def
    proof (intro allI impI)
      fix x assume x: "x < length F"
      with inv have "x \<noteq> nextNodeIdx s" by (simp add: loop_inv_def)
      from combine_Freq [OF c this] R x show "Freq (nodes s' ! x) = F ! x" by (simp add: R_def)
    qed
  qed
  then obtain st :: state where bd: "build base F = Inr st" and R: "R st"
    and t: "tree base (length F) (nextNodeIdx st) (nextNodeIdx st - 1) (nodes st)"
    and L: "Label base F = Some (Inr (map (\<lambda>x. rev (up_path (nodes st) (nextNodeIdx st) x)) [0..<length F]))"
    unfolding labelled_def by blast
  let ?ls = "map (\<lambda>x. rev (up_path (nodes st) (nextNodeIdx st) x)) [0..<length F]"
  have "Freq (nodes st ! i) = F ! i \<and> walk (nodes st) (nodes st ! i) [] = Some (Inr (rev (?ls ! i)))"
    if "i < length F" for i
  proof -
    have "i < nextNodeIdx st" using that tree_facts(1) [OF t] by simp
    from walk_up_path [OF t this, of "[]"] R that show ?thesis by (simp add: R_def)
  qed
  with L bd show ?thesis by auto
qed
qed

theorem Label_order_witness:
  "Label 4 [] = Some (Inr []) \<and> (\<exists>labels st. Label 4 [5, 4, 3, 2, 1] = Some (Inr labels) \<and> length labels = 5
     \<and> build 4 [5, 4, 3, 2, 1] = Inr st \<and> Freq (nodes st ! 3) = 2
     \<and> walk (nodes st) (nodes st ! 3) [] = Some (Inr (rev (labels ! 3))))"
proof -
  from Label_order [of 4 "[5, 4, 3, 2, 1]"] have e: "Label 4 [] = Some (Inr [])" by simp
  from Label_order [of 4 "[5, 4, 3, 2, 1]"] obtain labels st where
    "Label 4 [5, 4, 3, 2, 1] = Some (Inr labels)" "length labels = 5"
    "build 4 [5, 4, 3, 2, 1] = Inr st"
    "\<forall>i<5. Freq (nodes st ! i) = [5, 4, 3, 2, 1] ! i \<and>
        walk (nodes st) (nodes st ! i) [] = Some (Inr (rev (labels ! i)))"
    by auto
  moreover from this(4) have "Freq (nodes st ! 3) = 2 \<and>
        walk (nodes st) (nodes st ! 3) [] = Some (Inr (rev (labels ! 3)))" by simp
  ultimately show ?thesis using e by blast
qed

subsection \<open>The combination steps\<close>

text \<open>
  C6: for \<open>base\<close> of at least 2 and at least two items, the first call of
  \<open>combine\<close> asks for \<open>initial = 2 + (C - 2) mod (base - 1)\<close> children, a number in
  \<open>[2, base]\<close>, and pops exactly that many; every later call asks for \<open>base\<close>
  children and pops exactly \<open>base\<close>.  So in the finished tree the first internal
  node (index \<open>C\<close>) has \<open>initial\<close> children and every other internal node has
  \<open>base\<close> children.
\<close>

theorem combine_counts:
  assumes b: "2 \<le> base" and C: "2 \<le> length F"
  shows "initial_count base (length F) = 2 + (int (length F) - 2) mod (base - 1)
     \<and> 2 \<le> initial_count base (length F) \<and> initial_count base (length F) \<le> base
     \<and> (\<exists>st0 calls st.
           combine_calls base F = (initial_count base (length F), st0) # calls
         \<and> popped (initial_count base (length F)) st0 = nat (initial_count base (length F))
         \<and> (\<forall>(k, s) \<in> set calls. k = base \<and> popped k s = nat base)
         \<and> build base F = Inr st
         \<and> (\<forall>p. length F \<le> p \<and> p < nextNodeIdx st \<longrightarrow>
               length (children (nodes st) (nextNodeIdx st) p)
                 = (if p = length F then nat (initial_count base (length F)) else nat base)))"
proof -
  note kb = initial_count_bounds [OF b C]
  define R where "R = kids_inv base (length F)"
  have "\<exists>st1 st. built base F st1 st \<and> R st"
  proof (rule build_run [where R = R, OF b C])
    show "\<And>st1. combine (initial_count base (length F)) (init_state base F) = Inr st1 \<Longrightarrow> R st1"
      unfolding R_def by (rule kids_inv_first [OF b C])
    show "\<And>s s'. loop_inv base (length F) s \<Longrightarrow> R s \<Longrightarrow> 1 < length (nodeHeap s) \<Longrightarrow>
        popped base s = nat base \<Longrightarrow> combine base s = Inr s' \<Longrightarrow> R s'"
      unfolding R_def by (rule kids_inv_step [OF b])
  qed
  then obtain st1 st :: state where bd: "build base F = Inr st"
    and K: "kids_inv base (length F) st"
    and cc: "combine_calls base F = (initial_count base (length F), init_state base F) # main_calls base st1"
    and p0: "popped (initial_count base (length F)) (init_state base F) = nat (initial_count base (length F))"
    and calls: "\<forall>(k, s) \<in> set (main_calls base st1).
           k = base \<and> popped k s = nat base \<and> nextNodeIdx s < length (nodes s)"
    unfolding R_def built_def by blast
  have calls': "\<forall>(k, s) \<in> set (main_calls base st1). k = base \<and> popped k s = nat base"
    using calls by auto
  have kk: "\<forall>p. length F \<le> p \<and> p < nextNodeIdx st \<longrightarrow>
               length (children (nodes st) (nextNodeIdx st) p)
                 = (if p = length F then nat (initial_count base (length F)) else nat base)"
    using K unfolding kids_inv_def children_kids by simp
  show ?thesis
    using initial_count_eq [OF b C] kb(1,2) cc p0 calls' bd kk by blast
qed


theorem combine_counts_witness:
  "initial_count 4 8 = 2 \<and>
   (\<exists>st0 calls st.
       combine_calls 4 [10, 12, 7, 8, 32, 1, 17, 18] = (2, st0) # calls
     \<and> popped 2 st0 = 2 \<and> fst (hd calls) = 4 \<and> popped 4 (snd (hd calls)) = 4
     \<and> build 4 [10, 12, 7, 8, 32, 1, 17, 18] = Inr st
     \<and> length (children (nodes st) (nextNodeIdx st) 8) = 2
     \<and> length (children (nodes st) (nextNodeIdx st) 9) = 4)"
proof -
  let ?F = "[10, 12, 7, 8, 32, 1, 17, 18] :: go_int list"
  have len: "length (combine_calls 4 ?F) = 3" by code_simp
  have nx: "map_sum id nextNodeIdx (build 4 ?F) = Inr 11" by code_simp
  have i: "initial_count 4 8 = 2" by code_simp
  from combine_counts [of 4 ?F] i obtain st0 calls st where
    cc: "combine_calls 4 ?F = (2, st0) # calls" and p0: "popped 2 st0 = 2"
    and calls: "\<forall>(k, s) \<in> set calls. k = 4 \<and> popped k s = 4"
    and bd: "build 4 ?F = Inr st"
    and kk: "\<forall>p. 8 \<le> p \<and> p < nextNodeIdx st \<longrightarrow>
               length (children (nodes st) (nextNodeIdx st) p) = (if p = 8 then 2 else 4)"
    by auto
  from len cc have "calls \<noteq> []" by auto
  then have "hd calls \<in> set calls" by simp
  with calls have h: "fst (hd calls) = 4 \<and> popped 4 (snd (hd calls)) = 4"
    by (cases "hd calls") auto
  from nx bd have "nextNodeIdx st = 11" by simp
  with kk have "length (children (nodes st) (nextNodeIdx st) 8) = 2"
    and "length (children (nodes st) (nextNodeIdx st) 9) = 4" by simp_all
  with i cc p0 h bd show ?thesis by blast
qed

text \<open>
  C7: for \<open>base\<close> of at least 2 and \<open>C\<close> items, \<open>C\<close> at least 2, the pool of
  \<open>C + I\<close> nodes with \<open>I = (C - 1) div (base - 1) + 1\<close> suffices: the number of
  internal nodes created, one per call of \<open>combine\<close>, is at most \<open>I\<close>, every call
  finds a free node in the pool, and every call pops exactly the number of children it
  asks for, so the heap is never exhausted inside a call.
\<close>

theorem pool_suffices:
  assumes b: "2 \<le> base" and C: "2 \<le> length F"
  shows "\<exists>st. build base F = Inr st
     \<and> length (nodes st) = length F + ((length F - 1) div nat (base - 1) + 1)
     \<and> nextNodeIdx st - length F = length (combine_calls base F)
     \<and> length (combine_calls base F) \<le> (length F - 1) div nat (base - 1) + 1
     \<and> (\<forall>(k, s) \<in> set (combine_calls base F).
           0 \<le> k \<and> popped k s = nat k \<and> nextNodeIdx s < length (nodes s))"
proof -
  have "\<exists>st1 st. built base F st1 st \<and> True"
    by (rule build_run [where R = "\<lambda>_. True", OF b C]) simp_all
  then obtain st1 st :: state where bd: "build base F = Inr st"
    and ln: "length (nodes st) = length F + num_iters base (length F)"
    and cc: "combine_calls base F = (initial_count base (length F), init_state base F) # main_calls base st1"
    and p0: "popped (initial_count base (length F)) (init_state base F) = nat (initial_count base (length F))"
    and nx: "nextNodeIdx st = length F + length (combine_calls base F)"
    and le: "nextNodeIdx st \<le> length (nodes st)"
    and calls: "\<forall>(k, s) \<in> set (main_calls base st1).
           k = base \<and> popped k s = nat base \<and> nextNodeIdx s < length (nodes s)"
    unfolding built_def by blast
  have C1: "1 \<le> length F" using C by simp
  note fl = init_state_fields [OF b C1]
  have room0: "nextNodeIdx (init_state base F) < length (nodes (init_state base F))"
    by (simp add: fl num_iters_def)
  have k0: "0 \<le> initial_count base (length F)" using initial_count_bounds(1) [OF b C] by simp
  have all: "\<forall>(k, s) \<in> set (combine_calls base F).
           0 \<le> k \<and> popped k s = nat k \<and> nextNodeIdx s < length (nodes s)"
    unfolding cc using p0 room0 k0 calls b by auto
  have "length (combine_calls base F) \<le> num_iters base (length F)" using nx le ln by simp
  with bd ln nx all show ?thesis by (simp add: num_iters_def)
qed

theorem pool_suffices_witness:
  "\<exists>st. build 2 [1, 1, 1, 1, 1] = Inr st \<and> length (nodes st) = 10
     \<and> nextNodeIdx st - 5 = length (combine_calls 2 [1, 1, 1, 1, 1])
     \<and> length (combine_calls 2 [1, 1, 1, 1, 1]) = 4
     \<and> popped (fst (hd (combine_calls 2 [1, 1, 1, 1, 1]))) (snd (hd (combine_calls 2 [1, 1, 1, 1, 1]))) = 2"
proof -
  let ?F = "[1, 1, 1, 1, 1] :: go_int list"
  have len: "length (combine_calls 2 ?F) = 4" by code_simp
  have k: "fst (hd (combine_calls 2 ?F)) = 2" by code_simp
  from pool_suffices [of 2 ?F] obtain st where bd: "build 2 ?F = Inr st"
    and ln: "length (nodes st) = 10"
    and nx: "nextNodeIdx st - 5 = length (combine_calls 2 ?F)"
    and all: "\<forall>(k, s) \<in> set (combine_calls 2 ?F).
           0 \<le> k \<and> popped k s = nat k \<and> nextNodeIdx s < length (nodes s)"
    by auto
  from len have "combine_calls 2 ?F \<noteq> []" by auto
  then have "hd (combine_calls 2 ?F) \<in> set (combine_calls 2 ?F)" by simp
  with all have "popped (fst (hd (combine_calls 2 ?F))) (snd (hd (combine_calls 2 ?F)))
      = nat (fst (hd (combine_calls 2 ?F)))"
    by (cases "hd (combine_calls 2 ?F)") auto
  with k have "popped (fst (hd (combine_calls 2 ?F))) (snd (hd (combine_calls 2 ?F))) = 2" by simp
  with bd ln nx len show ?thesis by blast
qed

subsection \<open>Frequencies and label lengths\<close>

text \<open>
  Where the absolute values of the frequencies add up to less than \<open>2^63\<close>, no sum
  of frequencies overflows, and an item of strictly lower frequency than another item
  never gets a strictly shorter label than that item.  The frequencies may be
  negative.
\<close>

theorem lower_frequency_not_shorter:
  assumes b: "2 \<le> base" and T: "sum_list (map (\<lambda>f. \<bar>sint f\<bar>) F) < 2 ^ 63"
    and i: "i < length F" and j: "j < length F" and lt: "sint (F ! i) < sint (F ! j)"
  shows "\<exists>labels. Label base F = Some (Inr labels) \<and> length (labels ! j) \<le> length (labels ! i)"
proof -
  let ?C = "length F" and ?T = "sum_list (map (\<lambda>f. \<bar>sint f\<bar>) F)"
  have ij: "i \<noteq> j" using lt by auto
  have C: "2 \<le> ?C" using i j ij by simp
  have C1: "1 \<le> ?C" using C by simp
  note fl = init_state_fields [OF b C1]
  note kb = initial_count_bounds [OF b C]
  define R where "R = (\<lambda>s::state. wforest ?C ?T s \<and> kids_inv base ?C s
     \<and> (\<forall>x<?C. Freq (nodes s ! x) = F ! x))"
  have "\<exists>st. labelled base F st \<and> R st"
  proof (rule Label_run [where R = R, OF b C])
    fix st1
    assume c: "combine (initial_count base ?C) (init_state base F) = Inr st1"
    have f0: "forest base ?C (init_state base F)" by (rule init_state_forest [OF b C1])
    have w0: "wforest ?C ?T (init_state base F)" by (rule init_state_wforest [OF b C1])
    have k0: "0 \<le> initial_count base ?C" using kb(1) by simp
    have 1: "wforest ?C ?T st1" by (rule combine_wforest [OF f0 w0 T k0 kb(2) c])
    have 2: "kids_inv base ?C st1" by (rule kids_inv_first [OF b C c])
    have 3: "\<forall>x<?C. Freq (nodes st1 ! x) = F ! x"
    proof (intro allI impI)
      fix x assume x: "x < ?C"
      then have "x \<noteq> nextNodeIdx (init_state base F)" by (simp add: fl)
      from combine_Freq [OF c this] fl(5) [OF x] show "Freq (nodes st1 ! x) = F ! x"
        by (simp add: leaf_node_def)
    qed
    from 1 2 3 show "R st1" by (simp add: R_def)
  next
    fix s s'
    assume inv: "loop_inv base ?C s" and R: "R s" and pop: "popped base s = nat base"
      and c: "combine base s = Inr s'"
    from inv have f: "forest base ?C s" and Cn: "?C < nextNodeIdx s" by (simp_all add: loop_inv_def)
    from R have w: "wforest ?C ?T s" and K: "kids_inv base ?C s"
      and Fr: "\<forall>x<?C. Freq (nodes s ! x) = F ! x" by (simp_all add: R_def)
    have b0: "0 \<le> base" using b by simp
    have 1: "wforest ?C ?T s'" by (rule combine_wforest [OF f w T b0 order_refl c])
    have 2: "kids_inv base ?C s'" by (rule kids_inv_step [OF b inv K pop c])
    have 3: "\<forall>x<?C. Freq (nodes s' ! x) = F ! x"
    proof (intro allI impI)
      fix x assume x: "x < ?C"
      with Cn have "x \<noteq> nextNodeIdx s" by simp
      from combine_Freq [OF c this] Fr x show "Freq (nodes s' ! x) = F ! x" by simp
    qed
    from 1 2 3 show "R s'" by (simp add: R_def)
  qed
  then obtain st :: state where lb: "labelled base F st" and R: "R st" by blast
  let ?m = "nextNodeIdx st" and ?ns = "nodes st"
  from lb have t: "tree base ?C ?m (?m - 1) ?ns" and h: "nodeHeap st = [?m - 1]"
    and Cm: "?C \<le> ?m - 1"
    and L: "Label base F = Some (Inr (map (\<lambda>x. rev (up_path ?ns ?m x)) [0..<?C]))"
    by (simp_all add: labelled_def)
  from R h have w: "winv ?C ?T ?m 0 ?ns [?m - 1]" by (simp add: R_def wforest_def)
  from R have K: "\<forall>q. ?C \<le> q \<and> q < ?m \<longrightarrow>
      card (kids ?ns ?m q) = (if q = ?C then nat (initial_count base ?C) else nat base)"
    by (simp add: R_def kids_inv_def)
  have hf: "huff base ?C (nat (initial_count base ?C)) (nat base) ?m ?ns"
    unfolding huff_def
  proof (intro conjI)
    show "tree base ?C ?m (?m - 1) ?ns" by (rule t)
    show "2 \<le> nat (initial_count base ?C)" using kb(1) by simp
    show "nat (initial_count base ?C) \<le> nat base" using kb(2) by simp
    show "\<forall>x<?m. \<forall>y<?m. x \<noteq> ?m - 1 \<and> y \<noteq> ?m - 1 \<and> before ?ns x y \<and> born ?C ?ns y x
        \<longrightarrow> wt ?ns x \<le> wt ?ns y"
      using winvD(4) [OF w] by simp
    show "\<forall>q. ?C \<le> q \<and> q < ?m \<longrightarrow> wt ?ns q = sum (wt ?ns) (kids ?ns ?m q)"
      using winvD(5) [OF w] by simp
    show "\<forall>q. ?C \<le> q \<and> q < ?m \<longrightarrow>
        card (kids ?ns ?m q) = (if q = ?C then nat (initial_count base ?C) else nat base)"
      by (rule K)
  qed
  have im: "i < ?m" and jm: "j < ?m" and ir: "i \<noteq> ?m - 1" and jr: "j \<noteq> ?m - 1"
    using i j Cm by simp_all
  from R i j have wi: "wt ?ns i = sint (F ! i)" and wj: "wt ?ns j = sint (F ! j)"
    by (simp_all add: R_def wt_def)
  with lt have wlt: "wt ?ns i < wt ?ns j" by simp
  have bij: "before ?ns i j"
  proof (rule ccontr)
    assume "\<not> before ?ns i j"
    with before_total have "before ?ns j i" by blast
    moreover have "born ?C ?ns i j" using i by (simp add: born_def)
    ultimately have "wt ?ns j \<le> wt ?ns i" using huffD(2) [OF hf jm im jr ir] by simp
    with wlt show False by simp
  qed
  then have "j = ?m - 1 \<or> before ?ns i j" by simp
  from lighter_is_deeper [OF hf im ir jm this wlt]
  have "length (up_path ?ns ?m j) \<le> length (up_path ?ns ?m i)" .
  then have "length (map (\<lambda>x. rev (up_path ?ns ?m x)) [0..<?C] ! j)
      \<le> length (map (\<lambda>x. rev (up_path ?ns ?m x)) [0..<?C] ! i)"
    using i j by simp
  with L show ?thesis by blast
qed

theorem lower_frequency_not_shorter_witness:
  "\<exists>labels. Label 2 [- 10, 1, 1, 1] = Some (Inr labels)
     \<and> sint ([- 10, 1, 1, 1 :: go_int] ! 0) < sint ([- 10, 1, 1, 1 :: go_int] ! 3)
     \<and> length (labels ! 3) \<le> length (labels ! 0)"
proof -
  have 1: "(2::int) \<le> 2" by simp
  have 2: "sum_list (map (\<lambda>f. \<bar>sint f\<bar>) [- 10, 1, 1, 1 :: go_int]) < 2 ^ 63" by simp
  have 3: "0 < length [- 10, 1, 1, 1 :: go_int]" "3 < length [- 10, 1, 1, 1 :: go_int]" by simp_all
  have 4: "sint ([- 10, 1, 1, 1 :: go_int] ! 0) < sint ([- 10, 1, 1, 1 :: go_int] ! 3)" by simp
  from lower_frequency_not_shorter [OF 1 2 3 4] 4 show ?thesis by blast
qed

text \<open>
  C5: the item of lowest frequency is to get a label at least as long as that of the
  item of highest frequency.  \<open>combine\<close> adds the frequencies of the children in a
  Go \<open>int\<close> and nothing checks the sum, so it wraps around.  With base 2 and the
  frequencies \<open>-2^63, -1, 4, 5, 6, 7\<close> the first combination adds \<open>-2^63\<close> and
  \<open>-1\<close> to \<open>2^63 - 1\<close>, the largest value there is; their parent is popped last
  and ends directly under the root.  The item of lowest frequency, \<open>-2^63\<close>, gets
  the label \<open>[1, 0]\<close> of length 2, and the item of highest frequency, 7, gets the
  label \<open>[0, 1, 1]\<close> of length 3.
\<close>

theorem Label_wraps_lowest_shorter:
  "Label 2 [- 9223372036854775808, - 1, 4, 5, 6, 7]
     = Some (Inr [[1, 0], [1, 1], [0, 0, 0], [0, 0, 1], [0, 1, 0], [0, 1, 1]])
   \<and> list_all (\<lambda>f. sint (- 9223372036854775808 :: go_int) \<le> sint f)
        [- 9223372036854775808, - 1, 4, 5, 6, 7 :: go_int]
   \<and> list_all (\<lambda>f. sint f \<le> sint (7 :: go_int))
        [- 9223372036854775808, - 1, 4, 5, 6, 7 :: go_int]
   \<and> length ([[1, 0], [1, 1], [0, 0, 0], [0, 0, 1], [0, 1, 0], [0, 1, 1 :: int]] ! 0)
       < length ([[1, 0], [1, 1], [0, 0, 0], [0, 0, 1], [0, 1, 0], [0, 1, 1 :: int]] ! 5)"
  by code_simp

text \<open>
  Negative frequencies are not needed for this.  With base 2 and eight frequencies
  between \<open>2^61\<close> and \<open>2^63\<close> the sums of the later combinations wrap around to
  negative weights; the item of lowest frequency, the first, gets a label of length 2
  and the item of highest frequency, the last, one of length 3.
\<close>

lemma Label_wraps_nonnegative:
  "Label 2 [2305843009213693953, 4611686018427387906, 4611686018427387906, 6917529027641081856,
            6917529027641081856, 6917529027641081856, 6917529027641081856, 6917529027641081857]
     = Some (Inr [[1, 0], [1, 1], [0, 1, 0, 0, 0], [0, 1, 0, 0, 1], [0, 1, 1], [0, 0, 0],
                  [0, 1, 0, 1], [0, 0, 1]])
   \<and> list_all (\<lambda>f. 0 \<le> sint f \<and> sint (2305843009213693953 :: go_int) \<le> sint f
                   \<and> sint f \<le> sint (6917529027641081857 :: go_int))
        [2305843009213693953, 4611686018427387906, 4611686018427387906, 6917529027641081856,
         6917529027641081856, 6917529027641081856, 6917529027641081856, 6917529027641081857 :: go_int]"
  by code_simp

end
